theory Spec2Isabelle
  imports Complex_Main
begin

section \<open>Text: Python strings as lists of code points\<close>

text \<open>
  The analyzer (\<^verbatim>\<open>src/backend/style_analyzer.py\<close>) works on Python \<^verbatim>\<open>str\<close> values, which
  are sequences of Unicode code points. A character is a natural number (its code point)
  and a string a list of them; \<open>str\<close> embeds an ASCII literal.

  The classes the source spells out are defined here as it spells them: Unicode white
  space (\<^verbatim>\<open>\s\<close>, \<^verbatim>\<open>str.strip\<close>, \<^verbatim>\<open>str.split\<close>), the bullet characters, the dashes, the ellipsis
  and the ranges of \<^verbatim>\<open>EMOJI_PATTERN\<close>.
\<close>

type_synonym pychar = nat
type_synonym pystr = "nat list"

definition str :: "string \<Rightarrow> pystr" where
  "str s = map of_char s"

subsection \<open>The runtime: Unicode database and floating point\<close>

text \<open>
  Two things the analyzer takes from Python and numpy are not part of the repository,
  and are the parameter \<open>U\<close> of every function that needs them.

  \<^item> What Python reads from its Unicode character database: is a code point alphanumeric,
    a decimal digit, a digit; the lower case of a string.

  \<^item> The arithmetic of 64-bit floating point numbers. A float is the real number it
    stands for, so comparisons and \<^verbatim>\<open>max\<close> are those of the reals; what rounds is a field
    of the runtime: \<open>fl_mean\<close> is \<^verbatim>\<open>np.mean\<close> and \<open>fl_std\<close> is \<^verbatim>\<open>np.std\<close> of a list of integers,
    \<open>fl_div\<close> is \<^verbatim>\<open>x / y\<close> and \<open>fl_mul\<close> is \<^verbatim>\<open>x * y\<close>, \<open>fl_round\<close> is \<^verbatim>\<open>round(x, n)\<close>, and
    \<open>fl_lit\<close> gives the float that a decimal literal of the source denotes (the float of
    \<^verbatim>\<open>0.4\<close> is not the number 4/10).

  The theorems hold for every runtime, or say what they ask of it.
\<close>

record runtime =
  uc_alnum :: "pychar \<Rightarrow> bool"
  uc_decimal :: "pychar \<Rightarrow> bool"
  uc_digit :: "pychar \<Rightarrow> bool"
  uc_lower :: "pystr \<Rightarrow> pystr"
  fl_mean :: "nat list \<Rightarrow> real"
  fl_std :: "nat list \<Rightarrow> real"
  fl_div :: "real \<Rightarrow> real \<Rightarrow> real"
  fl_mul :: "real \<Rightarrow> real \<Rightarrow> real"
  fl_round :: "real \<Rightarrow> nat \<Rightarrow> real"
  fl_lit :: "real \<Rightarrow> real"

text \<open>
  \<open>ascii_runtime\<close> is the runtime used to run the functions on concrete texts. Its
  letters are the ASCII letters and the four letters that match an ASCII letter when
  case is ignored (U+0130, U+0131, U+017F, U+212A); the lower case of U+0130 is \<^verbatim>\<open>i\<close>
  followed by the combining dot U+0307, as in Python. Its arithmetic is exact: the mean
  and the population standard deviation of the reals, exact quotients and products,
  rounding of the exact value to \<open>n\<close> decimals with a tie going to the even neighbour,
  and every literal its decimal value. It is not Python's arithmetic, and is applied
  only to texts on which it gives what Python gives: their code points are ASCII or
  U+3000, and the numbers that a statement reports are computed without rounding
  (1/2, 1, 5/2, 7/2, 100 from integers). The one number that rounds, the quotient 5/7,
  is only compared with the literal \<^verbatim>\<open>0.7\<close>, from which it is far.
\<close>

definition ascii_lower_char :: "pychar \<Rightarrow> pystr" where
  "ascii_lower_char c =
     (if 65 \<le> c \<and> c \<le> 90 then [c + 32]
      else if c = 0x130 then [0x69, 0x307]
      else if c = 0x212A then [0x6B]
      else [c])"

definition exact_mean :: "nat list \<Rightarrow> real" where
  "exact_mean xs = real (sum_list xs) / real (length xs)"

definition exact_std :: "nat list \<Rightarrow> real" where
  "exact_std xs = sqrt ((\<Sum>x\<leftarrow>xs. (real x - exact_mean xs)\<^sup>2) / real (length xs))"

definition round_half_even :: "real \<Rightarrow> int" where
  "round_half_even x =
     (if x - of_int \<lfloor>x\<rfloor> < 1 / 2 then \<lfloor>x\<rfloor>
      else if x - of_int \<lfloor>x\<rfloor> > 1 / 2 then \<lfloor>x\<rfloor> + 1
      else if even \<lfloor>x\<rfloor> then \<lfloor>x\<rfloor> else \<lfloor>x\<rfloor> + 1)"

definition exact_round :: "real \<Rightarrow> nat \<Rightarrow> real" where
  "exact_round x n = of_int (round_half_even (x * 10 ^ n)) / 10 ^ n"

definition ascii_runtime :: runtime where
  "ascii_runtime = \<lparr>
     uc_alnum = (\<lambda>c. (48 \<le> c \<and> c \<le> 57) \<or> (65 \<le> c \<and> c \<le> 90) \<or> (97 \<le> c \<and> c \<le> 122)
        \<or> c = 0x130 \<or> c = 0x131 \<or> c = 0x17F \<or> c = 0x212A),
     uc_decimal = (\<lambda>c. 48 \<le> c \<and> c \<le> 57),
     uc_digit = (\<lambda>c. 48 \<le> c \<and> c \<le> 57),
     uc_lower = (\<lambda>s. concat (map ascii_lower_char s)),
     fl_mean = exact_mean,
     fl_std = exact_std,
     fl_div = (\<lambda>x y. x / y),
     fl_mul = (\<lambda>x y. x * y),
     fl_round = exact_round,
     fl_lit = (\<lambda>x. x) \<rparr>"

text \<open>\<^verbatim>\<open>\w\<close>: alphanumeric or the underscore.\<close>

definition isword :: "runtime \<Rightarrow> pychar \<Rightarrow> bool" where
  "isword U c = (uc_alnum U c \<or> c = 0x5F)"

text \<open>
  Python's white space: U+0009..U+000D, U+001C..U+0020, U+0085, U+00A0, U+1680,
  U+2000..U+200A, U+2028, U+2029, U+202F, U+205F and U+3000.
\<close>

definition isspace :: "pychar \<Rightarrow> bool" where
  "isspace c = ((0x09 \<le> c \<and> c \<le> 0x0D) \<or> (0x1C \<le> c \<and> c \<le> 0x20) \<or> c = 0x85 \<or> c = 0xA0
      \<or> c = 0x1680 \<or> (0x2000 \<le> c \<and> c \<le> 0x200A) \<or> c = 0x2028 \<or> c = 0x2029
      \<or> c = 0x202F \<or> c = 0x205F \<or> c = 0x3000)"

definition lstrip :: "pystr \<Rightarrow> pystr" where
  "lstrip s = dropWhile isspace s"

definition rstrip :: "pystr \<Rightarrow> pystr" where
  "rstrip s = rev (dropWhile isspace (rev s))"

definition strip :: "pystr \<Rightarrow> pystr" where
  "strip s = rstrip (lstrip s)"

definition endswith :: "pystr \<Rightarrow> pychar \<Rightarrow> bool" where
  "endswith s c = (s \<noteq> [] \<and> last s = c)"

text \<open>\<^verbatim>\<open>sep.join(xs)\<close>.\<close>

fun py_join :: "pystr \<Rightarrow> pystr list \<Rightarrow> pystr" where
  "py_join sep [] = []"
| "py_join sep [x] = x"
| "py_join sep (x # y # r) = x @ sep @ py_join sep (y # r)"

text \<open>\<^verbatim>\<open>s.split(sep)\<close> for a separator of one character: always at least one piece.\<close>

fun split_chr :: "pychar \<Rightarrow> pystr \<Rightarrow> pystr \<Rightarrow> pystr list" where
  "split_chr sep cur [] = [cur]"
| "split_chr sep cur (c # cs) =
     (if c = sep then cur # split_chr sep [] cs else split_chr sep (cur @ [c]) cs)"

lemma length_dropWhile_less [termination_simp]: "length (dropWhile P xs) < Suc (length xs)"
  by (simp add: le_imp_less_Suc length_dropWhile_le)

text \<open>\<^verbatim>\<open>s.split()\<close>: the maximal runs of characters that are not white space.\<close>

fun split_ws :: "pystr \<Rightarrow> pystr list" where
  "split_ws [] = []"
| "split_ws (c # cs) =
     (if isspace c then split_ws cs
      else (c # takeWhile (\<lambda>x. \<not> isspace x) cs) # split_ws (dropWhile (\<lambda>x. \<not> isspace x) cs))"

section \<open>Segmentation\<close>

text \<open>
  \<^verbatim>\<open>re.sub(r'\s+', ' ', text)\<close>: every maximal run of white space becomes one space.
\<close>

fun collapse_ws :: "pystr \<Rightarrow> pystr" where
  "collapse_ws [] = []"
| "collapse_ws (c # cs) =
     (if isspace c then 0x20 # collapse_ws (dropWhile isspace cs) else c # collapse_ws cs)"

definition sentence_end :: "pychar \<Rightarrow> bool" where
  "sentence_end c = (c = 0x2E \<or> c = 0x21 \<or> c = 0x3F)"

text \<open>The lookahead \<^verbatim>\<open>(?=[A-Z"\'])\<close> on the rest of the text.\<close>

definition sentence_start :: "pystr \<Rightarrow> bool" where
  "sentence_start r = (case r of [] \<Rightarrow> False
     | d # _ \<Rightarrow> (0x41 \<le> d \<and> d \<le> 0x5A) \<or> d = 0x22 \<or> d = 0x27)"

text \<open>
  \<^verbatim>\<open>re.split(r'(?<=[.!?])\s+(?=[A-Z"\'])|(?<=[.!?])$', text)\<close>, scanning left to right.
  \<open>after_end\<close> says that the character before the position is one of \<^verbatim>\<open>.!?\<close> (the
  lookbehind), \<open>cur\<close> is the piece collected so far. The first alternative matches a run
  of white space that a capital or a quote follows: \<^verbatim>\<open>\s+\<close> is greedy and a shorter run is
  followed by white space, so only the maximal run can match. The second alternative is
  the empty match at the end of the text, which splits off a last empty piece.
\<close>

fun sentence_pieces :: "bool \<Rightarrow> pystr \<Rightarrow> pystr \<Rightarrow> pystr list" where
  "sentence_pieces after_end cur [] = (if after_end then [cur, []] else [cur])"
| "sentence_pieces after_end cur (c # cs) =
     (if after_end \<and> isspace c \<and> sentence_start (dropWhile isspace cs)
      then cur # sentence_pieces False [] (dropWhile isspace cs)
      else sentence_pieces (sentence_end c) (cur @ [c]) cs)"

definition split_sentences :: "pystr \<Rightarrow> pystr list" where
  "split_sentences text =
     map strip (filter (\<lambda>s. strip s \<noteq> [] \<and> length (strip s) > 1)
       (sentence_pieces False [] (strip (collapse_ws text))))"

definition bullet_char :: "pychar \<Rightarrow> bool" where
  "bullet_char c = (c = 0x2D \<or> c = 0x2022 \<or> c = 0x2A)"

text \<open>The part of a run of white space after its last newline.\<close>

definition after_last_newline :: "pystr \<Rightarrow> pystr" where
  "after_last_newline w = rev (takeWhile (\<lambda>x. x \<noteq> 0x0A) (rev w))"

text \<open>
  \<^verbatim>\<open>re.split(r'\n\s*\n|\n(?=\s*[-\<bullet>*])', text)\<close>. At a newline, \<open>w\<close> is the maximal run of white
  space after it. The first alternative matches when \<open>w\<close> holds a newline, and (greedy
  \<^verbatim>\<open>\s*\<close>, giving back as little as it must) consumes up to the last newline of \<open>w\<close>.
  Otherwise the second alternative matches, consuming the newline alone, when the first
  character after \<open>w\<close> is \<^verbatim>\<open>-\<close>, the bullet U+2022 or \<^verbatim>\<open>*\<close>.
\<close>

function paragraph_pieces :: "pystr \<Rightarrow> pystr \<Rightarrow> pystr list" where
  "paragraph_pieces cur [] = [cur]"
| "paragraph_pieces cur (c # cs) =
     (if c = 0x0A \<and> 0x0A \<in> set (takeWhile isspace cs)
      then cur # paragraph_pieces [] (after_last_newline (takeWhile isspace cs) @ dropWhile isspace cs)
      else if c = 0x0A \<and> (case dropWhile isspace cs of [] \<Rightarrow> False | d # _ \<Rightarrow> bullet_char d)
      then cur # paragraph_pieces [] cs
      else paragraph_pieces (cur @ [c]) cs)"
  by pat_completeness auto

lemma length_after_last_newline: "length (after_last_newline w) \<le> length w"
  unfolding after_last_newline_def
  by (metis length_rev length_takeWhile_le)

termination paragraph_pieces
proof (relation "measure (\<lambda>(cur, t). length t)")
  show "wf (measure (\<lambda>(cur, t). length t))" by simp
next
  fix cur :: pystr and c :: pychar and cs :: pystr
  have "length (after_last_newline (takeWhile isspace cs)) \<le> length (takeWhile isspace cs)"
    by (rule length_after_last_newline)
  moreover have "length (takeWhile isspace cs) + length (dropWhile isspace cs) = length cs"
    by (metis length_append takeWhile_dropWhile_id)
  ultimately show "((([], after_last_newline (takeWhile isspace cs) @ dropWhile isspace cs)), (cur, c # cs))
      \<in> measure (\<lambda>(cur, t). length t)"
    by simp
qed auto

definition split_paragraphs :: "pystr \<Rightarrow> pystr list" where
  "split_paragraphs text =
     map strip (filter (\<lambda>p. strip p \<noteq> []) (paragraph_pieces [] text))"

text \<open>\<^verbatim>\<open>re.findall(r'\b\w+\b', text)\<close>: the maximal runs of word characters.\<close>

fun find_words :: "runtime \<Rightarrow> pystr \<Rightarrow> pystr list" where
  "find_words U [] = []"
| "find_words U (c # cs) =
     (if isword U c
      then (c # takeWhile (isword U) cs) # find_words U (dropWhile (isword U) cs)
      else find_words U cs)"

definition count_words :: "runtime \<Rightarrow> pystr \<Rightarrow> nat" where
  "count_words U text = length (find_words U text)"

definition get_words :: "runtime \<Rightarrow> pystr \<Rightarrow> pystr list" where
  "get_words U text = map (uc_lower U) (find_words U text)"

text \<open>\<^verbatim>\<open>[tuple(words[i:i+n]) for i in range(len(words) - n + 1)]\<close>; the range is empty when
  the bound is not positive.\<close>

definition extract_ngrams :: "pystr list \<Rightarrow> nat \<Rightarrow> pystr list list" where
  "extract_ngrams words n = map (\<lambda>i. take n (drop i words)) [0 ..< Suc (length words) - n]"

section \<open>The analyzer and its metric extractors\<close>

text \<open>
  The state \<^verbatim>\<open>StyleAnalyzer.__init__\<close> builds: the samples, their join by a blank line, and
  the sentences, paragraphs and lower-cased words of all samples in sample order.
\<close>

record analyzer =
  samples :: "pystr list"
  combined_text :: pystr
  all_sentences :: "pystr list"
  all_paragraphs :: "pystr list"
  all_words :: "pystr list"

definition StyleAnalyzer :: "runtime \<Rightarrow> pystr list \<Rightarrow> analyzer" where
  "StyleAnalyzer U ss = \<lparr>
     samples = ss,
     combined_text = py_join [0x0A, 0x0A] ss,
     all_sentences = concat (map split_sentences ss),
     all_paragraphs = concat (map split_paragraphs ss),
     all_words = concat (map (get_words U) ss) \<rparr>"

text \<open>\<^verbatim>\<open>analyze_sentence_structure\<close>: average length, standard deviation, short ratio, long
  ratio.\<close>

definition analyze_sentence_structure :: "runtime \<Rightarrow> analyzer \<Rightarrow> real \<times> real \<times> real \<times> real" where
  "analyze_sentence_structure U a =
     (if all_sentences a = [] then (0, 0, 0, 0)
      else let lengths = map (count_words U) (all_sentences a);
               avg_len = fl_mean U lengths;
               std_len = fl_std U lengths;
               short_ratio = fl_div U (real (length (filter (\<lambda>l. l \<le> 5) lengths)))
                               (real (length lengths));
               long_ratio = fl_div U (real (length (filter (\<lambda>l. l \<ge> 20) lengths)))
                              (real (length lengths))
           in (fl_round U avg_len 2, fl_round U std_len 2,
               fl_round U short_ratio 3, fl_round U long_ratio 3))"

text \<open>\<^verbatim>\<open>analyze_questions_hooks\<close>: question ratio, exclamation ratio.\<close>

definition analyze_questions_hooks :: "runtime \<Rightarrow> analyzer \<Rightarrow> real \<times> real" where
  "analyze_questions_hooks U a =
     (if all_sentences a = [] then (0, 0)
      else let question_count = length (filter (\<lambda>s. endswith (rstrip s) 0x3F) (all_sentences a));
               exclamation_count = length (filter (\<lambda>s. endswith (rstrip s) 0x21) (all_sentences a));
               total = length (all_sentences a)
           in (fl_round U (fl_div U (real question_count) (real total)) 3,
               fl_round U (fl_div U (real exclamation_count) (real total)) 3))"

text \<open>
  \<^verbatim>\<open>re.match(r'^\s*[-\<bullet>*]\s', line)\<close>: some run of white space, a bullet character, a white
  space character.
\<close>

fun match_bullet :: "pystr \<Rightarrow> bool" where
  "match_bullet [] = False"
| "match_bullet (c # cs) =
     ((bullet_char c \<and> (case cs of [] \<Rightarrow> False | s # _ \<Rightarrow> isspace s))
      \<or> (isspace c \<and> match_bullet cs))"

text \<open>\<^verbatim>\<open>\d+[.)]\s\<close> at the start of the text, and \<^verbatim>\<open>re.match(r'^\s*\d+[.)]\s', line)\<close>.\<close>

fun match_digits :: "runtime \<Rightarrow> pystr \<Rightarrow> bool" where
  "match_digits U [] = False"
| "match_digits U (c # cs) =
     (uc_decimal U c \<and>
      ((case cs of d # s # _ \<Rightarrow> (d = 0x2E \<or> d = 0x29) \<and> isspace s | _ \<Rightarrow> False)
       \<or> match_digits U cs))"

fun match_numbered :: "runtime \<Rightarrow> pystr \<Rightarrow> bool" where
  "match_numbered U [] = False"
| "match_numbered U (c # cs) =
     (match_digits U (c # cs) \<or> (isspace c \<and> match_numbered U cs))"

definition is_bullet_line :: "runtime \<Rightarrow> pystr \<Rightarrow> bool" where
  "is_bullet_line U line = (match_bullet (strip line) \<or> match_numbered U (strip line))"

text \<open>\<^verbatim>\<open>analyze_formatting\<close>: average paragraph length, uses bullets, bullet frequency.\<close>

definition analyze_formatting :: "runtime \<Rightarrow> analyzer \<Rightarrow> real \<times> bool \<times> real" where
  "analyze_formatting U a =
     (if all_paragraphs a = [] then (0, False, 0)
      else let para_lengths = map (\<lambda>p. length (split_sentences p)) (all_paragraphs a);
               avg_para_len = (if para_lengths \<noteq> [] then fl_mean U para_lengths else 0);
               lines = split_chr 0x0A [] (combined_text a);
               bullet_lines = length (filter (is_bullet_line U) lines);
               total_lines = max (length lines) 1;
               bullet_freq = fl_div U (real bullet_lines) (real total_lines)
           in (fl_round U avg_para_len 2, bullet_lines > 0, fl_round U bullet_freq 3))"

text \<open>
  \<^verbatim>\<open>CONTRACTIONS\<close>: the alternatives in the order of the pattern. With \<^verbatim>\<open>re.IGNORECASE\<close> a
  letter of the pattern matches itself, its capital, and for \<^verbatim>\<open>i\<close>, \<^verbatim>\<open>s\<close> and \<^verbatim>\<open>k\<close> also
  U+0130 and U+0131, U+017F, and U+212A.
\<close>

definition CONTRACTIONS :: "pystr list" where
  "CONTRACTIONS = map str
     [''i'm'', ''i've'', ''i'll'', ''i'd'', ''you're'', ''you've'', ''you'll'', ''you'd'',
      ''he's'', ''she's'', ''it's'',
      ''we're'', ''we've'', ''we'll'', ''we'd'', ''they're'', ''they've'', ''they'll'', ''they'd'',
      ''that's'', ''there's'', ''here's'', ''what's'', ''who's'', ''how's'', ''where's'', ''when's'',
      ''isn't'', ''aren't'', ''wasn't'', ''weren't'', ''hasn't'', ''haven't'', ''hadn't'',
      ''doesn't'', ''don't'', ''didn't'', ''won't'', ''wouldn't'', ''shan't'', ''shouldn't'',
      ''can't'', ''couldn't'', ''mustn't'', ''let's'', ''gonna'', ''wanna'', ''gotta'']"

definition ci_match :: "pychar \<Rightarrow> pychar \<Rightarrow> bool" where
  "ci_match p c = (c = p \<or> (0x61 \<le> p \<and> p \<le> 0x7A \<and> c + 32 = p)
      \<or> (p = 0x69 \<and> (c = 0x130 \<or> c = 0x131)) \<or> (p = 0x73 \<and> c = 0x17F)
      \<or> (p = 0x6B \<and> c = 0x212A))"

fun ci_prefix :: "pystr \<Rightarrow> pystr \<Rightarrow> bool" where
  "ci_prefix [] t = True"
| "ci_prefix (p # ps) [] = False"
| "ci_prefix (p # ps) (c # cs) = (ci_match p c \<and> ci_prefix ps cs)"

text \<open>\<^verbatim>\<open>\b\<close> at a position: \<open>before\<close> says that the character before it is a word character,
  \<open>rest\<close> is the text from the position on.\<close>

definition word_boundary :: "runtime \<Rightarrow> bool \<Rightarrow> pystr \<Rightarrow> bool" where
  "word_boundary U before rest =
     (before \<noteq> (case rest of [] \<Rightarrow> False | c # _ \<Rightarrow> isword U c))"

text \<open>An alternative matches at the start of \<open>t\<close>, and \<^verbatim>\<open>\b\<close> holds after it.\<close>

definition alt_matches :: "runtime \<Rightarrow> pystr \<Rightarrow> pystr \<Rightarrow> bool" where
  "alt_matches U alt t =
     (ci_prefix alt t \<and>
      word_boundary U (isword U (last (take (length alt) t))) (drop (length alt) t))"

text \<open>
  \<^verbatim>\<open>CONTRACTIONS.findall(text)\<close>: at every position where \<^verbatim>\<open>\b\<close> holds, the first alternative
  that matches with \<^verbatim>\<open>\b\<close> after it; the scan goes on after the match. Every alternative
  has at least one character, so a match of \<open>alt\<close> at \<open>c # cs\<close> leaves
  \<open>drop (length alt - 1) cs\<close>.
\<close>

fun contraction_findall :: "runtime \<Rightarrow> bool \<Rightarrow> pystr \<Rightarrow> pystr list" where
  "contraction_findall U before [] = []"
| "contraction_findall U before (c # cs) =
     (if word_boundary U before (c # cs) then
        (case find (\<lambda>alt. alt_matches U alt (c # cs)) CONTRACTIONS of
           Some alt \<Rightarrow>
             take (length alt) (c # cs) #
             contraction_findall U (isword U (last (take (length alt) (c # cs))))
               (drop (length alt - 1) cs)
         | None \<Rightarrow> contraction_findall U (isword U c) cs)
      else contraction_findall U (isword U c) cs)"

text \<open>\<^verbatim>\<open>analyze_vocabulary\<close>: type-token ratio, average word length, contraction ratio.\<close>

definition analyze_vocabulary :: "runtime \<Rightarrow> analyzer \<Rightarrow> real \<times> real \<times> real" where
  "analyze_vocabulary U a =
     (if all_words a = [] then (0, 0, 0)
      else let ttr = fl_div U (real (card (set (all_words a)))) (real (length (all_words a)));
               avg_word_len = fl_mean U (map length (all_words a));
               contraction_matches = contraction_findall U False (uc_lower U (combined_text a));
               contraction_ratio =
                 fl_div U (real (length contraction_matches)) (real (max (length (all_words a)) 1))
           in (fl_round U ttr 3, fl_round U avg_word_len 2, fl_round U contraction_ratio 3))"

text \<open>The character class of \<^verbatim>\<open>EMOJI_PATTERN\<close>, range by range as the source lists them.\<close>

definition emoji_char :: "pychar \<Rightarrow> bool" where
  "emoji_char c =
     ((0x1F600 \<le> c \<and> c \<le> 0x1F64F) \<or> (0x1F300 \<le> c \<and> c \<le> 0x1F5FF)
      \<or> (0x1F680 \<le> c \<and> c \<le> 0x1F6FF) \<or> (0x1F1E0 \<le> c \<and> c \<le> 0x1F1FF)
      \<or> (0x2702 \<le> c \<and> c \<le> 0x27B0) \<or> (0x24C2 \<le> c \<and> c \<le> 0x1F251)
      \<or> (0x1F900 \<le> c \<and> c \<le> 0x1F9FF) \<or> (0x1FA00 \<le> c \<and> c \<le> 0x1FA6F)
      \<or> (0x1FA70 \<le> c \<and> c \<le> 0x1FAFF) \<or> (0x2702 \<le> c \<and> c \<le> 0x27B0)
      \<or> c = 0x200D \<or> c = 0xFE0F)"

text \<open>\<^verbatim>\<open>EMOJI_PATTERN.findall(text)\<close>: the maximal runs of characters of the class.\<close>

fun emoji_findall :: "pystr \<Rightarrow> pystr list" where
  "emoji_findall [] = []"
| "emoji_findall (c # cs) =
     (if emoji_char c
      then (c # takeWhile emoji_char cs) # emoji_findall (dropWhile emoji_char cs)
      else emoji_findall cs)"

text \<open>\<^verbatim>\<open>re.findall(r'\.{3}|\<dots>', text)\<close>: three full stops, or the ellipsis U+2026.\<close>

fun ellipsis_findall :: "pystr \<Rightarrow> pystr list" where
  "ellipsis_findall [] = []"
| "ellipsis_findall (a # cs) =
     (if a = 0x2E \<and> take 2 cs = [0x2E, 0x2E] then [a, 0x2E, 0x2E] # ellipsis_findall (drop 2 cs)
      else if a = 0x2026 then [a] # ellipsis_findall cs
      else ellipsis_findall cs)"

text \<open>\<^verbatim>\<open>re.findall(r'[\<emdash>\<endash>]|\s-\s', text)\<close>: the dashes U+2014 and U+2013, or a hyphen between
  two white space characters (which the match consumes).\<close>

fun dash_findall :: "pystr \<Rightarrow> pystr list" where
  "dash_findall [] = []"
| "dash_findall (a # cs) =
     (if a = 0x2014 \<or> a = 0x2013 then [a] # dash_findall cs
      else if isspace a \<and> length cs \<ge> 2 \<and> cs ! 0 = 0x2D \<and> isspace (cs ! 1)
      then (a # take 2 cs) # dash_findall (drop 2 cs)
      else dash_findall cs)"

lemma length_tl_dropWhile_less [termination_simp]:
  "length (dropWhile P xs) - Suc 0 < Suc (length xs)"
  using length_dropWhile_le [of P xs] by arith

text \<open>
  \<^verbatim>\<open>re.findall(r'\([^)]+\)', text)\<close>: an opening parenthesis, the maximal run of characters
  other than \<^verbatim>\<open>)\<close>, which is not empty, and the \<^verbatim>\<open>)\<close> that ends it.
\<close>

fun paren_findall :: "pystr \<Rightarrow> pystr list" where
  "paren_findall [] = []"
| "paren_findall (c # cs) =
     (if c = 0x28 \<and> takeWhile (\<lambda>x. x \<noteq> 0x29) cs \<noteq> [] \<and> dropWhile (\<lambda>x. x \<noteq> 0x29) cs \<noteq> []
      then (c # takeWhile (\<lambda>x. x \<noteq> 0x29) cs @ [0x29]) #
           paren_findall (tl (dropWhile (\<lambda>x. x \<noteq> 0x29) cs))
      else paren_findall cs)"

text \<open>\<^verbatim>\<open>analyze_punctuation_emoji\<close>: the frequencies of emoji, ellipses, dashes and
  parentheticals.\<close>

definition analyze_punctuation_emoji :: "runtime \<Rightarrow> analyzer \<Rightarrow> real \<times> real \<times> real \<times> real" where
  "analyze_punctuation_emoji U a =
     (let total_words = max (length (all_words a)) 1;
          total_sentences = max (length (all_sentences a)) 1;
          emoji_matches = emoji_findall (combined_text a);
          emoji_freq = fl_mul U (fl_div U (real (length emoji_matches)) (real total_words)) 100;
          ellipsis_count = length (ellipsis_findall (combined_text a));
          ellipsis_freq = fl_mul U (fl_div U (real ellipsis_count) (real total_sentences)) 100;
          dash_count = length (dash_findall (combined_text a));
          dash_freq = fl_mul U (fl_div U (real dash_count) (real total_words)) 100;
          paren_count = length (paren_findall (combined_text a));
          paren_freq = fl_mul U (fl_div U (real paren_count) (real total_sentences)) 100
      in (fl_round U emoji_freq 3, fl_round U ellipsis_freq 3,
          fl_round U dash_freq 3, fl_round U paren_freq 3))"

text \<open>\<^verbatim>\<open>analyze_rhythm\<close>: the ratio of paragraphs that open with a short sentence, and the
  variation of the sentence lengths.\<close>

definition analyze_rhythm :: "runtime \<Rightarrow> analyzer \<Rightarrow> real \<times> pystr" where
  "analyze_rhythm U a =
     (if all_paragraphs a = [] then (0, str ''low'')
      else let short_openers = length (filter
                 (\<lambda>para. split_sentences para \<noteq> [] \<and> count_words U (hd (split_sentences para)) \<le> 6)
                 (all_paragraphs a));
               opens_short = fl_div U (real short_openers) (real (max (length (all_paragraphs a)) 1));
               variation =
                 (if length (all_sentences a) \<ge> 2 then
                    (let lengths = map (count_words U) (all_sentences a);
                         cv = fl_div U (fl_std U lengths) (max (fl_mean U lengths) 1)
                     in if cv > fl_lit U 0.7 then str ''high''
                        else if cv > fl_lit U 0.4 then str ''medium''
                        else str ''low'')
                  else str ''low'')
           in (fl_round U opens_short 3, variation))"

section \<open>Phrase and word miners\<close>

text \<open>\<^verbatim>\<open>COMMON_WORDS\<close>, a set in the source; only membership is asked of it.\<close>

definition COMMON_WORDS :: "pystr list" where
  "COMMON_WORDS = map str
     [''the'', ''a'', ''an'', ''is'', ''are'', ''was'', ''were'', ''be'', ''been'',
      ''being'', ''have'', ''has'', ''had'', ''do'', ''does'', ''did'', ''will'',
      ''would'', ''could'', ''should'', ''may'', ''might'', ''shall'', ''can'', ''need'',
      ''dare'', ''ought'', ''used'', ''to'', ''of'', ''in'', ''for'', ''on'', ''with'',
      ''at'', ''by'', ''from'', ''as'', ''into'', ''through'', ''during'', ''before'',
      ''after'', ''above'', ''below'', ''between'', ''out'', ''off'', ''over'', ''under'',
      ''again'', ''further'', ''then'', ''once'', ''here'', ''there'', ''when'', ''where'',
      ''why'', ''how'', ''all'', ''both'', ''each'', ''few'', ''more'', ''most'',
      ''other'', ''some'', ''such'', ''no'', ''nor'', ''not'', ''only'', ''own'', ''same'',
      ''so'', ''than'', ''too'', ''very'', ''just'', ''don'', ''should'', ''now'', ''and'',
      ''but'', ''or'', ''if'', ''while'', ''that'', ''this'', ''these'', ''those'', ''it'',
      ''its'', ''i'', ''me'', ''my'', ''myself'', ''we'', ''our'', ''ours'', ''you'',
      ''your'', ''yours'', ''he'', ''him'', ''his'', ''she'', ''her'', ''hers'', ''they'',
      ''them'', ''their'', ''what'', ''which'', ''who'', ''whom'', ''about'', ''up'',
      ''like'', ''get'', ''got'', ''make'', ''go'', ''going'', ''know'', ''think'',
      ''see'', ''come'', ''want'', ''look'', ''use'', ''find'', ''give'', ''tell'',
      ''say'', ''said'', ''also'', ''well'', ''back'', ''even'', ''still'', ''way'',
      ''take'', ''thing'', ''things'', ''much'', ''because'', ''good'', ''new'', ''first'',
      ''last'', ''long'', ''great'', ''little'', ''right'', ''old'', ''big'', ''high'',
      ''different'', ''small'', ''large'', ''next'', ''early'', ''young'', ''important'',
      ''people'', ''time'', ''year'', ''day'', ''man'', ''woman'', ''child'', ''world'',
      ''life'', ''hand'', ''part'', ''place'', ''case'', ''week'', ''company'', ''system'',
      ''program'', ''question'', ''work'', ''point'', ''number'', ''let'', ''something'',
      ''really'', ''many'', ''every'', ''one'', ''two'', ''three'', ''anything'',
      ''nothing'', ''everything'', ''someone'', ''anyone'', ''everyone'', ''been'',
      ''being'', ''am'', ''s'', ''t'', ''re'', ''ve'', ''ll'', ''d'', ''m'', ''don't'',
      ''doesn't'', ''didn't'', ''won't'', ''wouldn't'', ''couldn't'', ''shouldn't'',
      ''isn't'', ''aren't'', ''wasn't'', ''weren't'', ''haven't'', ''hasn't'', ''hadn't'',
      ''can't'', ''couldn't'', ''it's'', ''that's'', ''there's'']"

text \<open>
  \<^verbatim>\<open>collections.Counter\<close>: the keys in the order of their first occurrence, each with its
  count. \<^verbatim>\<open>most_common(n)\<close> is the first \<open>n\<close> entries by descending count, entries of equal
  count in the order of the counter.
\<close>

fun counter_add :: "'a \<Rightarrow> ('a \<times> nat) list \<Rightarrow> ('a \<times> nat) list" where
  "counter_add x [] = [(x, 1)]"
| "counter_add x ((y, c) # r) = (if x = y then (y, c + 1) # r else (y, c) # counter_add x r)"

definition Counter :: "'a list \<Rightarrow> ('a \<times> nat) list" where
  "Counter xs = foldl (\<lambda>acc x. counter_add x acc) [] xs"

definition most_common :: "nat \<Rightarrow> ('a \<times> nat) list \<Rightarrow> ('a \<times> nat) list" where
  "most_common n cnt = take n (sort_key (\<lambda>(x, c). - int c) cnt)"

text \<open>\<^verbatim>\<open>all(w in COMMON_WORDS for w in gram)\<close>.\<close>

definition all_common :: "pystr list \<Rightarrow> bool" where
  "all_common gram = list_all (\<lambda>w. w \<in> set COMMON_WORDS) gram"

text \<open>The two loops of \<^verbatim>\<open>extract_signature_phrases\<close>; \<^verbatim>\<open>break\<close> returns the phrases so far.\<close>

fun trigram_loop :: "nat \<Rightarrow> (pystr list \<times> nat) list \<Rightarrow> pystr list \<Rightarrow> pystr list" where
  "trigram_loop top_n [] phrases = phrases"
| "trigram_loop top_n ((trigram, count) # rest) phrases =
     (if count \<ge> 2 \<and> \<not> all_common trigram then
        (if length (phrases @ [py_join [0x20] trigram]) \<ge> top_n div 2
         then phrases @ [py_join [0x20] trigram]
         else trigram_loop top_n rest (phrases @ [py_join [0x20] trigram]))
      else trigram_loop top_n rest phrases)"

fun bigram_loop :: "nat \<Rightarrow> (pystr list \<times> nat) list \<Rightarrow> pystr list \<Rightarrow> pystr list" where
  "bigram_loop top_n [] phrases = phrases"
| "bigram_loop top_n ((bigram, count) # rest) phrases =
     (if count \<ge> 2 \<and> \<not> all_common bigram then
        (let phrases' = (if py_join [0x20] bigram \<notin> set phrases
                         then phrases @ [py_join [0x20] bigram] else phrases)
         in if length phrases' \<ge> top_n then phrases'
            else bigram_loop top_n rest phrases')
      else bigram_loop top_n rest phrases)"

definition extract_signature_phrases :: "runtime \<Rightarrow> analyzer \<Rightarrow> nat \<Rightarrow> pystr list" where
  "extract_signature_phrases U a top_n =
     (let all_bigrams = concat (map (\<lambda>sample. extract_ngrams (get_words U sample) 2) (samples a));
          all_trigrams = concat (map (\<lambda>sample. extract_ngrams (get_words U sample) 3) (samples a));
          bigram_counts = Counter all_bigrams;
          trigram_counts = Counter all_trigrams;
          phrases = trigram_loop top_n (most_common 50 trigram_counts) [];
          phrases = bigram_loop top_n (most_common 50 bigram_counts) phrases
      in take top_n phrases)"

text \<open>\<^verbatim>\<open>str.isdigit\<close>: not empty, and every character a digit.\<close>

definition isdigit :: "runtime \<Rightarrow> pystr \<Rightarrow> bool" where
  "isdigit U w = (w \<noteq> [] \<and> list_all (uc_digit U) w)"

fun vocabulary_loop :: "runtime \<Rightarrow> nat \<Rightarrow> (pystr \<times> nat) list \<Rightarrow> pystr list \<Rightarrow> pystr list" where
  "vocabulary_loop U top_n [] distinctive = distinctive"
| "vocabulary_loop U top_n ((word, count) # rest) distinctive =
     (let distinctive' =
            (if word \<notin> set COMMON_WORDS \<and> length word > 2 \<and> count \<ge> 2 \<and> \<not> isdigit U word
             then distinctive @ [word] else distinctive)
      in if length distinctive' \<ge> top_n then distinctive'
         else vocabulary_loop U top_n rest distinctive')"

definition extract_vocabulary_preferences :: "runtime \<Rightarrow> analyzer \<Rightarrow> nat \<Rightarrow> pystr list" where
  "extract_vocabulary_preferences U a top_n =
     vocabulary_loop U top_n (most_common 200 (Counter (all_words a))) []"

definition generic_starters :: "pystr list" where
  "generic_starters = map str [''the'', ''a'', ''an'', ''it is'', ''there is'', ''there are'']"

definition sentence_starter :: "runtime \<Rightarrow> pystr \<Rightarrow> pystr list" where
  "sentence_starter U sentence =
     (let words = split_ws sentence
      in if length words \<ge> 2 then [uc_lower U (py_join [0x20] (take 2 words))]
         else if length words = 1 then [uc_lower U (hd words)]
         else [])"

fun starter_loop :: "nat \<Rightarrow> (pystr \<times> nat) list \<Rightarrow> pystr list \<Rightarrow> pystr list" where
  "starter_loop top_n [] result = result"
| "starter_loop top_n ((starter, count) # rest) result =
     (let result' = (if count \<ge> 2 \<and> starter \<notin> set generic_starters
                     then result @ [starter] else result)
      in if length result' \<ge> top_n then result'
         else starter_loop top_n rest result')"

definition extract_sentence_starters :: "runtime \<Rightarrow> analyzer \<Rightarrow> nat \<Rightarrow> pystr list" where
  "extract_sentence_starters U a top_n =
     (let starters = concat (map (sentence_starter U) (all_sentences a))
      in starter_loop top_n (most_common 30 (Counter starters)) [])"

definition transition_candidates :: "pystr list" where
  "transition_candidates = map str
     [''however'', ''but'', ''so'', ''and'', ''yet'', ''still'', ''also'', ''moreover'',
      ''furthermore'', ''meanwhile'', ''instead'', ''rather'', ''although'', ''though'',
      ''because'', ''since'', ''therefore'', ''thus'', ''hence'', ''consequently'',
      ''nevertheless'', ''nonetheless'', ''besides'', ''anyway'', ''actually'',
      ''basically'', ''honestly'', ''frankly'', ''literally'', ''obviously'', ''clearly'',
      ''simply'', ''essentially'', ''ultimately'', ''finally'', ''look'', ''listen'',
      ''here's the thing'', ''the truth is'', ''the point is'', ''in fact'',
      ''for example'', ''for instance'']"

text \<open>
  \<^verbatim>\<open>extract_transition_words\<close>: the candidates that are keys of the counter of the words,
  in the order of the candidate list, then sorted by descending count (the sort keeps
  the order of entries of equal count), the first \<open>top_n\<close> of them.
\<close>

definition extract_transition_words :: "analyzer \<Rightarrow> nat \<Rightarrow> pystr list" where
  "extract_transition_words a top_n =
     (let word_counts = Counter (all_words a);
          found = concat (map (\<lambda>word.
                    (case map_of word_counts word of
                       Some c \<Rightarrow> if c \<ge> 1 then [(word, c)] else []
                     | None \<Rightarrow> []))
                    transition_candidates)
      in map fst (take top_n (sort_key (\<lambda>(w, c). - int c) found)))"

section \<open>Describers and excerpts\<close>

definition describe_formatting_style :: "runtime \<Rightarrow> analyzer \<Rightarrow> pystr" where
  "describe_formatting_style U a =
     (case analyze_formatting U a of (avg_para, uses_bullets, bullet_freq) \<Rightarrow>
      case analyze_sentence_structure U a of (avg_len, std_len, short_ratio, long_ratio) \<Rightarrow>
      let parts =
            [if avg_para \<le> 2 then str ''Uses very short paragraphs (1-2 sentences)''
             else if avg_para \<le> 4 then str ''Uses moderate-length paragraphs (3-4 sentences)''
             else str ''Uses longer paragraphs (5+ sentences)'']
          @ [if uses_bullets then
               (if bullet_freq > fl_lit U 0.2 then str ''Heavy use of bullet points and lists''
                else str ''Occasional use of bullet points'')
             else str ''Rarely or never uses bullet points'']
          @ (if short_ratio > fl_lit U 0.3
             then [str ''Frequently uses punchy, short sentences for emphasis''] else [])
          @ (if long_ratio > fl_lit U 0.2
             then [str ''Includes longer, detailed sentences''] else [])
      in py_join (str ''. '') parts @ str ''.'')"

text \<open>The inner loop of \<^verbatim>\<open>extract_sample_excerpts\<close> over the first sentences of a sample.\<close>

fun excerpt_loop :: "nat \<Rightarrow> pystr list \<Rightarrow> pystr \<Rightarrow> pystr" where
  "excerpt_loop max_length [] excerpt = excerpt"
| "excerpt_loop max_length (s # rest) excerpt =
     (if length excerpt + length s \<le> max_length
      then excerpt_loop max_length rest (excerpt @ s @ [0x20])
      else excerpt)"

definition sample_excerpt :: "nat \<Rightarrow> pystr \<Rightarrow> pystr list" where
  "sample_excerpt max_length sample =
     (let sentences = split_sentences sample
      in if sentences \<noteq> [] then
           (let excerpt = excerpt_loop max_length (take 3 sentences) []
            in if strip excerpt \<noteq> [] then [strip excerpt] else [])
         else [])"

definition extract_sample_excerpts :: "analyzer \<Rightarrow> nat \<Rightarrow> nat \<Rightarrow> pystr list" where
  "extract_sample_excerpts a count max_length =
     take count (concat (map (sample_excerpt max_length) (samples a)))"

definition generate_style_summary :: "runtime \<Rightarrow> analyzer \<Rightarrow> pystr" where
  "generate_style_summary U a =
     (case analyze_sentence_structure U a of (avg_len, std_len, short_ratio, long_ratio) \<Rightarrow>
      case analyze_questions_hooks U a of (question_ratio, exclamation_ratio) \<Rightarrow>
      case analyze_formatting U a of (avg_para, uses_bullets, bullet_freq) \<Rightarrow>
      case analyze_vocabulary U a of (vocabulary_richness, avg_word_len, contraction_ratio) \<Rightarrow>
      case analyze_punctuation_emoji U a of (emoji_freq, ellipsis_freq, dash_freq, paren_freq) \<Rightarrow>
      case analyze_rhythm U a of (opens_short, variation) \<Rightarrow>
      let summary_parts =
            [if avg_len < 10 then str ''This writer uses notably short, punchy sentences''
             else if avg_len < 15 then str ''This writer uses moderate-length sentences''
             else str ''This writer tends toward longer, more detailed sentences'']
          @ [if variation = str ''high''
             then str ''with high variation between short and long sentences, creating a dynamic rhythm''
             else if variation = str ''medium''
             then str ''with moderate variation in sentence length''
             else str ''with consistent sentence lengths throughout'']
          @ (if question_ratio > fl_lit U 0.15
             then [str ''They frequently use rhetorical questions to engage readers'']
             else if question_ratio > fl_lit U 0.05 then [str ''They occasionally use questions'']
             else [])
          @ (if exclamation_ratio > fl_lit U 0.1
             then [str ''Exclamation marks are used liberally for emphasis and energy'']
             else [])
          @ (if vocabulary_richness > fl_lit U 0.6 then [str ''The vocabulary is rich and varied'']
             else if vocabulary_richness < fl_lit U 0.4
             then [str ''The vocabulary is focused and repetitive (which creates familiarity)'']
             else [])
          @ (if contraction_ratio > fl_lit U 0.03
             then [str ''Heavy use of contractions gives a conversational, informal tone'']
             else if contraction_ratio < fl_lit U 0.01
             then [str ''Minimal contractions suggest a more formal tone'']
             else [])
          @ (if uses_bullets
             then [str ''Bullet points and lists are part of the formatting style''] else [])
          @ (if emoji_freq > fl_lit U 0.5
             then [str ''Emojis are used frequently as part of the communication style'']
             else if emoji_freq > 0 then [str ''Emojis are used sparingly'']
             else [])
          @ (if dash_freq > fl_lit U 0.5
             then [str ''Dashes are used frequently for emphasis or asides''] else [])
          @ (if opens_short > fl_lit U 0.5
             then [str ''Paragraphs often open with a short, punchy statement''] else [])
      in py_join (str ''. '') summary_parts @ str ''.'')"

section \<open>The pipeline\<close>

record style_metrics =
  avg_sentence_length :: real
  sentence_length_std :: real
  short_sentence_ratio :: real
  long_sentence_ratio :: real
  question_ratio :: real
  exclamation_ratio :: real
  avg_paragraph_length :: real
  uses_bullet_points :: bool
  bullet_frequency :: real
  vocabulary_richness :: real
  avg_word_length :: real
  contraction_ratio :: real
  emoji_frequency :: real
  ellipsis_frequency :: real
  dash_frequency :: real
  parenthetical_frequency :: real
  opens_with_short_sentence :: real
  sentence_length_variation :: pystr

record profile =
  metrics :: style_metrics
  signature_phrases :: "pystr list"
  vocabulary_preferences :: "pystr list"
  sentence_starters :: "pystr list"
  transition_words :: "pystr list"
  formatting_style :: pystr
  sample_excerpts :: "pystr list"
  raw_style_summary :: pystr

text \<open>The six dictionaries of metrics, merged into one record.\<close>

definition analyze_metrics :: "runtime \<Rightarrow> analyzer \<Rightarrow> style_metrics" where
  "analyze_metrics U a =
     (case analyze_sentence_structure U a of (avg_len, std_len, short_ratio, long_ratio) \<Rightarrow>
      case analyze_questions_hooks U a of (q_ratio, e_ratio) \<Rightarrow>
      case analyze_formatting U a of (avg_para, uses_bullets, bullet_freq) \<Rightarrow>
      case analyze_vocabulary U a of (ttr, avg_word_len, c_ratio) \<Rightarrow>
      case analyze_punctuation_emoji U a of (emoji_freq, ellipsis_freq, dash_freq, paren_freq) \<Rightarrow>
      case analyze_rhythm U a of (opens_short, variation) \<Rightarrow>
      \<lparr> avg_sentence_length = avg_len,
        sentence_length_std = std_len,
        short_sentence_ratio = short_ratio,
        long_sentence_ratio = long_ratio,
        question_ratio = q_ratio,
        exclamation_ratio = e_ratio,
        avg_paragraph_length = avg_para,
        uses_bullet_points = uses_bullets,
        bullet_frequency = bullet_freq,
        vocabulary_richness = ttr,
        avg_word_length = avg_word_len,
        contraction_ratio = c_ratio,
        emoji_frequency = emoji_freq,
        ellipsis_frequency = ellipsis_freq,
        dash_frequency = dash_freq,
        parenthetical_frequency = paren_freq,
        opens_with_short_sentence = opens_short,
        sentence_length_variation = variation \<rparr>)"

text \<open>\<^verbatim>\<open>StyleAnalyzer(samples).analyze()\<close>, every miner with its default size.\<close>

definition analyze :: "runtime \<Rightarrow> pystr list \<Rightarrow> profile" where
  "analyze U ss =
     (let a = StyleAnalyzer U ss in
      \<lparr> metrics = analyze_metrics U a,
        signature_phrases = extract_signature_phrases U a 10,
        vocabulary_preferences = extract_vocabulary_preferences U a 15,
        sentence_starters = extract_sentence_starters U a 10,
        transition_words = extract_transition_words a 10,
        formatting_style = describe_formatting_style U a,
        sample_excerpts = extract_sample_excerpts a 5 200,
        raw_style_summary = generate_style_summary U a \<rparr>)"

section \<open>Notions used by the statements\<close>

text \<open>The clauses the two describers choose from in their first two rules.\<close>

definition paragraph_style_clauses :: "pystr list" where
  "paragraph_style_clauses = map str
     [''Uses very short paragraphs (1-2 sentences)'',
      ''Uses moderate-length paragraphs (3-4 sentences)'',
      ''Uses longer paragraphs (5+ sentences)'']"

definition bullet_usage_clauses :: "pystr list" where
  "bullet_usage_clauses = map str
     [''Heavy use of bullet points and lists'',
      ''Occasional use of bullet points'',
      ''Rarely or never uses bullet points'']"

definition sentence_length_clauses :: "pystr list" where
  "sentence_length_clauses = map str
     [''This writer uses notably short, punchy sentences'',
      ''This writer uses moderate-length sentences'',
      ''This writer tends toward longer, more detailed sentences'']"

definition variation_clauses :: "pystr list" where
  "variation_clauses = map str
     [''with high variation between short and long sentences, creating a dynamic rhythm'',
      ''with moderate variation in sentence length'',
      ''with consistent sentence lengths throughout'']"

text \<open>
  The word counts of the sentences of a corpus, and the classification of their
  variation: \<open>claimed_variation\<close> as the specification words it (the coefficient of
  variation is the standard deviation over the mean), \<open>guarded_variation\<close> with the mean
  replaced by 1 when it is smaller. The standard deviation, the mean and the quotient
  are the floats that the runtime computes, and the thresholds the floats of the
  literals \<^verbatim>\<open>0.7\<close> and \<^verbatim>\<open>0.4\<close>.
\<close>

definition sentence_lengths :: "runtime \<Rightarrow> pystr list \<Rightarrow> nat list" where
  "sentence_lengths U ss = map (count_words U) (concat (map split_sentences ss))"

definition classify_cv :: "runtime \<Rightarrow> real \<Rightarrow> pystr" where
  "classify_cv U cv =
     (if cv > fl_lit U 0.7 then str ''high''
      else if cv > fl_lit U 0.4 then str ''medium''
      else str ''low'')"

definition claimed_variation :: "runtime \<Rightarrow> nat list \<Rightarrow> pystr" where
  "claimed_variation U lengths =
     (if length lengths \<ge> 2
      then classify_cv U (fl_div U (fl_std U lengths) (fl_mean U lengths))
      else str ''low'')"

definition guarded_variation :: "runtime \<Rightarrow> nat list \<Rightarrow> pystr" where
  "guarded_variation U lengths =
     (if length lengths \<ge> 2
      then classify_cv U (fl_div U (fl_std U lengths) (max (fl_mean U lengths) 1))
      else str ''low'')"

text \<open>
  Signature phrases, as the specification words them: the counter of the n-grams of all
  samples, and the phrases of the entries that qualify (count at least 2, not all words
  common) among its 50 most common entries, in that order.
\<close>

definition ngram_counts :: "runtime \<Rightarrow> pystr list \<Rightarrow> nat \<Rightarrow> (pystr list \<times> nat) list" where
  "ngram_counts U ss n =
     Counter (concat (map (\<lambda>sample. extract_ngrams (get_words U sample) n) ss))"

definition qualifies :: "pystr list \<times> nat \<Rightarrow> bool" where
  "qualifies e = (snd e \<ge> 2 \<and> \<not> all_common (fst e))"

definition phrase :: "pystr list \<times> nat \<Rightarrow> pystr" where
  "phrase e = py_join [0x20] (fst e)"

definition qualifying_phrases :: "(pystr list \<times> nat) list \<Rightarrow> pystr list" where
  "qualifying_phrases cnt = map phrase (filter qualifies (most_common 50 cnt))"

text \<open>No word of the corpus holds a space (Python's words are runs of word characters,
  lower-cased).\<close>

definition words_without_space :: "runtime \<Rightarrow> pystr list \<Rightarrow> bool" where
  "words_without_space U ss = (\<forall>w\<in>set (concat (map (get_words U) ss)). 0x20 \<notin> set w)"

text \<open>
  Paragraph breaks. A break starts at the head of a text when the text starts with a
  newline that is followed, after a run of white space, by another newline (a blank
  line) or by one of the bullet characters (a line that begins with a bullet).
  \<open>has_break\<close> says that a break starts somewhere in the text.
\<close>

definition break_at :: "pystr \<Rightarrow> bool" where
  "break_at t = (case t of [] \<Rightarrow> False
     | c # cs \<Rightarrow> c = 0x0A \<and> (0x0A \<in> set (takeWhile isspace cs)
         \<or> (case dropWhile isspace cs of [] \<Rightarrow> False | d # _ \<Rightarrow> bullet_char d)))"

fun has_break :: "pystr \<Rightarrow> bool" where
  "has_break [] = False"
| "has_break (c # cs) = (break_at (c # cs) \<or> has_break cs)"

text \<open>
  \<open>no_break_within p t\<close>: in the text \<open>p @ t\<close> no break starts inside \<open>p\<close>. \<open>after_break t\<close> is what
  is left of \<open>t\<close> after the break that starts it: at a blank line the text after the last
  newline of the white space, before a bullet line the text after the newline.
\<close>

definition no_break_within :: "pystr \<Rightarrow> pystr \<Rightarrow> bool" where
  "no_break_within p t = list_all (\<lambda>i. \<not> break_at (drop i (p @ t))) [0 ..< length p]"

definition after_break :: "pystr \<Rightarrow> pystr" where
  "after_break t = (case t of [] \<Rightarrow> []
     | c # cs \<Rightarrow> if 0x0A \<in> set (takeWhile isspace cs)
         then after_last_newline (takeWhile isspace cs) @ dropWhile isspace cs
         else cs)"

text \<open>
  Excerpts, as the specification words them. Going through the sentences in order, a
  sentence is taken while the characters used so far (every taken sentence is followed
  by one space) and its own length stay within the budget; the first sentence that does
  not fit ends the excerpt. A sample gives the taken sentences joined by single spaces,
  or nothing when none was taken.
\<close>

fun greedy_sentences :: "nat \<Rightarrow> nat \<Rightarrow> pystr list \<Rightarrow> pystr list" where
  "greedy_sentences budget used [] = []"
| "greedy_sentences budget used (s # rest) =
     (if used + length s \<le> budget
      then s # greedy_sentences budget (used + length s + 1) rest
      else [])"

definition greedy_excerpt :: "nat \<Rightarrow> pystr \<Rightarrow> pystr list" where
  "greedy_excerpt budget sample =
     (case greedy_sentences budget 0 (take 3 (split_sentences sample)) of
        [] \<Rightarrow> []
      | s # chosen \<Rightarrow> [py_join [0x20] (s # chosen)])"

text \<open>
  Ratios. \<open>unit_interval\<close> is the closed interval from 0 to 1. \<open>word_starts\<close> counts the
  places of a text where a word starts: a word character after a character that is
  none (\<open>before\<close> says whether the character before the text is a word character).
  \<open>matches_letter\<close> holds of the characters that a letter of the pattern of contractions
  matches when case is ignored.
\<close>

definition unit_interval :: "real \<Rightarrow> bool" where
  "unit_interval x = (0 \<le> x \<and> x \<le> 1)"

fun word_starts :: "runtime \<Rightarrow> bool \<Rightarrow> pystr \<Rightarrow> nat" where
  "word_starts U before [] = 0"
| "word_starts U before (c # cs) =
     (if isword U c \<and> \<not> before then 1 else 0) + word_starts U (isword U c) cs"

definition matches_letter :: "pychar \<Rightarrow> bool" where
  "matches_letter c = ((0x61 \<le> c \<and> c \<le> 0x7A) \<or> (0x41 \<le> c \<and> c \<le> 0x5A)
      \<or> c = 0x130 \<or> c = 0x131 \<or> c = 0x17F \<or> c = 0x212A)"

text \<open>
  \<open>word_ends\<close> counts the places of a text where a word ends: a word character that no
  word character follows; \<open>keep\<close> restricts the count to some characters.
\<close>

fun word_ends :: "runtime \<Rightarrow> (pychar \<Rightarrow> bool) \<Rightarrow> pystr \<Rightarrow> nat" where
  "word_ends U keep [] = 0"
| "word_ends U keep (c # cs) =
     (if isword U c \<and> keep c \<and> (case cs of [] \<Rightarrow> True | d # _ \<Rightarrow> \<not> isword U d) then 1 else 0)
     + word_ends U keep cs"

text \<open>
  What the bounds on the ratios ask of the arithmetic: the quotient of two integers
  \<open>k \<le> n\<close>, \<open>n\<close> positive, rounded to some decimals, is between 0 and 1. Floating point
  division and Python's \<^verbatim>\<open>round\<close> are monotone and leave 0 and 1 as they are, so Python's
  arithmetic fits.
\<close>

definition arithmetic_fits :: "runtime \<Rightarrow> bool" where
  "arithmetic_fits U =
     (\<forall>k n d. 0 < n \<and> k \<le> n \<longrightarrow> unit_interval (fl_round U (fl_div U (real k) (real n)) d))"

text \<open>
  What the bound on the contraction ratio asks of the Unicode database; nothing is
  asked of the samples. Every character that matches a letter of the pattern is a word
  character, the newline is none, and the lower case of a text is made of one piece
  for each of its characters, in order (\<open>lower_image\<close>): the piece of a character that is
  no word character holds no word character; the piece of a word character is one word
  character, after which only characters that are no word characters may follow, and
  something follows only \<^verbatim>\<open>i\<close>. Python's database fits: the lower case of a character is
  one character of the same kind, except that of U+0130, which is \<^verbatim>\<open>i\<close> followed by the
  combining dot U+0307.
\<close>

definition lower_image :: "runtime \<Rightarrow> pychar \<Rightarrow> pystr \<Rightarrow> bool" where
  "lower_image U c img =
     (if isword U c
      then (case img of [] \<Rightarrow> False
            | d # marks \<Rightarrow> isword U d \<and> list_all (\<lambda>m. \<not> isword U m) marks
                \<and> (marks \<noteq> [] \<longrightarrow> d = 0x69))
      else list_all (\<lambda>m. \<not> isword U m) img)"

definition database_fits :: "runtime \<Rightarrow> bool" where
  "database_fits U =
     ((\<forall>c. matches_letter c \<longrightarrow> isword U c)
      \<and> \<not> isword U 0x0A
      \<and> (\<forall>t. \<exists>imgs. list_all2 (lower_image U) t imgs \<and> uc_lower U t = concat imgs))"

section \<open>Size caps of the ranked lists\<close>

lemma vocabulary_loop_length:
  "length distinctive < top_n \<Longrightarrow> length (vocabulary_loop U top_n cnt distinctive) \<le> top_n"
proof (induction cnt arbitrary: distinctive)
  case Nil
  then show ?case by simp
next
  case (Cons e cnt)
  obtain word n where e: "e = (word, n)" by (cases e)
  show ?case
    using Cons.prems Cons.IH
    by (simp add: e Let_def not_le)
qed

lemma starter_loop_length:
  "length result < top_n \<Longrightarrow> length (starter_loop top_n cnt result) \<le> top_n"
proof (induction cnt arbitrary: result)
  case Nil
  then show ?case by simp
next
  case (Cons e cnt)
  obtain starter n where e: "e = (starter, n)" by (cases e)
  show ?case
    using Cons.prems Cons.IH
    by (simp add: e Let_def not_le)
qed

text \<open>
  C9. For every sample list the ranked lists of the profile respect their default caps:
  at most 10 signature phrases, 15 vocabulary preferences, 10 sentence starters and
  10 transition words.
\<close>

theorem ranked_lists_size_caps:
  "length (signature_phrases (analyze U ss)) \<le> 10
   \<and> length (vocabulary_preferences (analyze U ss)) \<le> 15
   \<and> length (sentence_starters (analyze U ss)) \<le> 10
   \<and> length (transition_words (analyze U ss)) \<le> 10"
proof -
  have "length (extract_signature_phrases U a 10) \<le> 10" for a
    by (simp add: extract_signature_phrases_def Let_def)
  moreover have "length (extract_vocabulary_preferences U a 15) \<le> 15" for a
    unfolding extract_vocabulary_preferences_def
    by (rule vocabulary_loop_length) simp
  moreover have "length (extract_sentence_starters U a 10) \<le> 10" for a
    unfolding extract_sentence_starters_def Let_def
    by (rule starter_loop_length) simp
  moreover have "length (extract_transition_words a 10) \<le> 10" for a
    by (simp add: extract_transition_words_def Let_def)
  ultimately show ?thesis
    by (simp add: analyze_def Let_def)
qed

section \<open>The generated prose\<close>

lemma describe_formatting_style_shape:
  "\<exists>p b rest. p \<in> set paragraph_style_clauses \<and> b \<in> set bullet_usage_clauses \<and>
     describe_formatting_style U a = py_join (str ''. '') (p # b # rest) @ str ''.''"
proof -
  obtain avg_para uses_bullets bullet_freq
    where f: "analyze_formatting U a = (avg_para, uses_bullets, bullet_freq)"
    by (cases "analyze_formatting U a")
  obtain avg_len std_len short_ratio long_ratio
    where s: "analyze_sentence_structure U a = (avg_len, std_len, short_ratio, long_ratio)"
    by (cases "analyze_sentence_structure U a")
  define p where "p =
    (if avg_para \<le> 2 then str ''Uses very short paragraphs (1-2 sentences)''
     else if avg_para \<le> 4 then str ''Uses moderate-length paragraphs (3-4 sentences)''
     else str ''Uses longer paragraphs (5+ sentences)'')"
  define b where "b =
    (if uses_bullets then
       (if bullet_freq > fl_lit U 0.2 then str ''Heavy use of bullet points and lists''
        else str ''Occasional use of bullet points'')
     else str ''Rarely or never uses bullet points'')"
  have "\<exists>rest. describe_formatting_style U a = py_join (str ''. '') (p # b # rest) @ str ''.''"
    unfolding describe_formatting_style_def f s p_def b_def Let_def prod.case
    apply (simp only: append_Cons append_Nil)
    apply (rule exI)
    apply (rule refl)
    done
  moreover have "p \<in> set paragraph_style_clauses"
    by (simp add: p_def paragraph_style_clauses_def)
  moreover have "b \<in> set bullet_usage_clauses"
    by (simp add: b_def bullet_usage_clauses_def)
  ultimately show ?thesis by blast
qed

lemma generate_style_summary_shape:
  "\<exists>l v rest. l \<in> set sentence_length_clauses \<and> v \<in> set variation_clauses \<and>
     generate_style_summary U a = py_join (str ''. '') (l # v # rest) @ str ''.''"
proof -
  obtain avg_len std_len short_ratio long_ratio
    where s: "analyze_sentence_structure U a = (avg_len, std_len, short_ratio, long_ratio)"
    by (cases "analyze_sentence_structure U a")
  obtain q_ratio e_ratio
    where q: "analyze_questions_hooks U a = (q_ratio, e_ratio)"
    by (cases "analyze_questions_hooks U a")
  obtain avg_para uses_bullets bullet_freq
    where f: "analyze_formatting U a = (avg_para, uses_bullets, bullet_freq)"
    by (cases "analyze_formatting U a")
  obtain ttr avg_word_len c_ratio
    where w: "analyze_vocabulary U a = (ttr, avg_word_len, c_ratio)"
    by (cases "analyze_vocabulary U a")
  obtain emoji_freq ellipsis_freq dash_freq paren_freq
    where e: "analyze_punctuation_emoji U a = (emoji_freq, ellipsis_freq, dash_freq, paren_freq)"
    by (cases "analyze_punctuation_emoji U a")
  obtain opens_short variation
    where r: "analyze_rhythm U a = (opens_short, variation)"
    by (cases "analyze_rhythm U a")
  define l where "l =
    (if avg_len < 10 then str ''This writer uses notably short, punchy sentences''
     else if avg_len < 15 then str ''This writer uses moderate-length sentences''
     else str ''This writer tends toward longer, more detailed sentences'')"
  define v where "v =
    (if variation = str ''high''
     then str ''with high variation between short and long sentences, creating a dynamic rhythm''
     else if variation = str ''medium''
     then str ''with moderate variation in sentence length''
     else str ''with consistent sentence lengths throughout'')"
  have "\<exists>rest. generate_style_summary U a = py_join (str ''. '') (l # v # rest) @ str ''.''"
    unfolding generate_style_summary_def s q f w e r l_def v_def Let_def prod.case
    apply (simp only: append_Cons append_Nil)
    apply (rule exI)
    apply (rule refl)
    done
  moreover have "l \<in> set sentence_length_clauses"
    by (simp add: l_def sentence_length_clauses_def)
  moreover have "v \<in> set variation_clauses"
    by (simp add: v_def variation_clauses_def)
  ultimately show ?thesis by blast
qed

lemma joined_ends_with_period:
  "s = py_join sep parts @ str ''.'' \<Longrightarrow> s \<noteq> [] \<and> last s = 0x2E"
  by (simp add: str_def)

text \<open>
  C10. For every sample list, the empty corpus included, the two generated prose fields
  are never empty: the formatting description starts with a paragraph-style clause and
  a bullet-usage clause, the style summary with a sentence-length clause and a variation
  clause (further clauses may follow, all joined by a full stop and a space), and both
  strings end with a full stop.
\<close>

theorem prose_fields_never_empty:
  "(\<exists>p b rest. p \<in> set paragraph_style_clauses \<and> b \<in> set bullet_usage_clauses \<and>
      formatting_style (analyze U ss) = py_join (str ''. '') (p # b # rest) @ str ''.'')
   \<and> (\<exists>l v rest. l \<in> set sentence_length_clauses \<and> v \<in> set variation_clauses \<and>
      raw_style_summary (analyze U ss) = py_join (str ''. '') (l # v # rest) @ str ''.'')
   \<and> formatting_style (analyze U ss) \<noteq> []
   \<and> last (formatting_style (analyze U ss)) = 0x2E
   \<and> raw_style_summary (analyze U ss) \<noteq> []
   \<and> last (raw_style_summary (analyze U ss)) = 0x2E"
proof -
  define a where "a = StyleAnalyzer U ss"
  have f: "formatting_style (analyze U ss) = describe_formatting_style U a"
    and g: "raw_style_summary (analyze U ss) = generate_style_summary U a"
    by (simp_all add: analyze_def a_def Let_def)
  obtain p b rest where d: "p \<in> set paragraph_style_clauses" "b \<in> set bullet_usage_clauses"
      "describe_formatting_style U a = py_join (str ''. '') (p # b # rest) @ str ''.''"
    using describe_formatting_style_shape [of U a] by blast
  obtain l v rest' where s: "l \<in> set sentence_length_clauses" "v \<in> set variation_clauses"
      "generate_style_summary U a = py_join (str ''. '') (l # v # rest') @ str ''.''"
    using generate_style_summary_shape [of U a] by blast
  have "describe_formatting_style U a \<noteq> [] \<and> last (describe_formatting_style U a) = 0x2E"
    using d(3) by (rule joined_ends_with_period)
  moreover have "generate_style_summary U a \<noteq> [] \<and> last (generate_style_summary U a) = 0x2E"
    using s(3) by (rule joined_ends_with_period)
  ultimately show ?thesis
    unfolding f g using d s by blast
qed

section \<open>Evaluation on concrete texts\<close>

lemmas text_defs = str_def strip_def lstrip_def rstrip_def isspace_def endswith_def
  sentence_start_def sentence_end_def split_sentences_def
  bullet_char_def after_last_newline_def split_paragraphs_def
  isword_def ascii_runtime_def ascii_lower_char_def count_words_def get_words_def
  extract_ngrams_def StyleAnalyzer_def Let_def

lemmas number_defs = exact_mean_def exact_std_def exact_round_def round_half_even_def
  power2_eq_square real_sqrt_divide

section \<open>The fields of the metrics record\<close>

lemma metrics_sentence_structure:
  "avg_sentence_length (analyze_metrics U a) = fst (analyze_sentence_structure U a)"
  "sentence_length_std (analyze_metrics U a) = fst (snd (analyze_sentence_structure U a))"
  "short_sentence_ratio (analyze_metrics U a) = fst (snd (snd (analyze_sentence_structure U a)))"
  "long_sentence_ratio (analyze_metrics U a) = snd (snd (snd (analyze_sentence_structure U a)))"
  by (simp_all add: analyze_metrics_def split: prod.split)

lemma metrics_questions_hooks:
  "question_ratio (analyze_metrics U a) = fst (analyze_questions_hooks U a)"
  "exclamation_ratio (analyze_metrics U a) = snd (analyze_questions_hooks U a)"
  by (simp_all add: analyze_metrics_def split: prod.split)

lemma metrics_formatting:
  "avg_paragraph_length (analyze_metrics U a) = fst (analyze_formatting U a)"
  "uses_bullet_points (analyze_metrics U a) = fst (snd (analyze_formatting U a))"
  "bullet_frequency (analyze_metrics U a) = snd (snd (analyze_formatting U a))"
  by (simp_all add: analyze_metrics_def split: prod.split)

lemma metrics_vocabulary:
  "vocabulary_richness (analyze_metrics U a) = fst (analyze_vocabulary U a)"
  "avg_word_length (analyze_metrics U a) = fst (snd (analyze_vocabulary U a))"
  "contraction_ratio (analyze_metrics U a) = snd (snd (analyze_vocabulary U a))"
  by (simp_all add: analyze_metrics_def split: prod.split)

lemma metrics_punctuation_emoji:
  "emoji_frequency (analyze_metrics U a) = fst (analyze_punctuation_emoji U a)"
  "ellipsis_frequency (analyze_metrics U a) = fst (snd (analyze_punctuation_emoji U a))"
  "dash_frequency (analyze_metrics U a) = fst (snd (snd (analyze_punctuation_emoji U a)))"
  "parenthetical_frequency (analyze_metrics U a) = snd (snd (snd (analyze_punctuation_emoji U a)))"
  by (simp_all add: analyze_metrics_def split: prod.split)

lemma metrics_rhythm:
  "opens_with_short_sentence (analyze_metrics U a) = fst (analyze_rhythm U a)"
  "sentence_length_variation (analyze_metrics U a) = snd (analyze_rhythm U a)"
  by (simp_all add: analyze_metrics_def split: prod.split)

lemma metrics_analyze: "metrics (analyze U ss) = analyze_metrics U (StyleAnalyzer U ss)"
  by (simp add: analyze_def Let_def)

section \<open>A corpus without paragraphs has no sentences\<close>

lemma strip_empty_iff: "strip s = [] \<longleftrightarrow> list_all isspace s"
proof -
  have "strip s = [] \<longleftrightarrow> dropWhile isspace (rev (dropWhile isspace s)) = []"
    by (simp add: strip_def rstrip_def lstrip_def)
  also have "\<dots> \<longleftrightarrow> (\<forall>x\<in>set (dropWhile isspace s). isspace x)"
    by (simp add: dropWhile_eq_Nil_conv)
  also have "\<dots> \<longleftrightarrow> dropWhile isspace s = []"
    by (metis dropWhile_eq_Nil_conv dropWhile_idem)
  also have "\<dots> \<longleftrightarrow> list_all isspace s"
    by (simp add: dropWhile_eq_Nil_conv list_all_iff)
  finally show ?thesis .
qed

lemma paragraph_pieces_all_space:
  "list_all (list_all isspace) (paragraph_pieces cur t) \<Longrightarrow> list_all isspace cur \<and> list_all isspace t"
proof (induction cur t rule: paragraph_pieces.induct)
  case (1 cur)
  then show ?case by simp
next
  case (2 cur c cs)
  have newline: "isspace 0x0A" by (simp add: isspace_def)
  have run: "list_all isspace (takeWhile isspace cs)"
    by (simp add: list_all_iff) (meson set_takeWhileD)
  have whole: "list_all isspace (dropWhile isspace cs) \<Longrightarrow> list_all isspace cs"
    using run by (metis list_all_append takeWhile_dropWhile_id)
  consider (blank) "c = 0x0A" "0x0A \<in> set (takeWhile isspace cs)"
    | (bullet) "\<not> (c = 0x0A \<and> 0x0A \<in> set (takeWhile isspace cs))"
        "c = 0x0A \<and> (case dropWhile isspace cs of [] \<Rightarrow> False | d # _ \<Rightarrow> bullet_char d)"
    | (plain) "\<not> (c = 0x0A \<and> 0x0A \<in> set (takeWhile isspace cs))"
        "\<not> (c = 0x0A \<and> (case dropWhile isspace cs of [] \<Rightarrow> False | d # _ \<Rightarrow> bullet_char d))"
    by blast
  then show ?case
  proof cases
    case blank
    with "2.prems" have "list_all isspace cur"
      and "list_all (list_all isspace)
             (paragraph_pieces [] (after_last_newline (takeWhile isspace cs) @ dropWhile isspace cs))"
      by simp_all
    with "2.IH"(1) blank have "list_all isspace (dropWhile isspace cs)" by simp
    with whole blank newline \<open>list_all isspace cur\<close> show ?thesis by simp
  next
    case bullet
    with "2.prems" have "list_all isspace cur"
      and "list_all (list_all isspace) (paragraph_pieces [] cs)"
      by simp_all
    with "2.IH"(2) bullet have "list_all isspace cs" by simp
    with bullet newline \<open>list_all isspace cur\<close> show ?thesis by simp
  next
    case plain
    with "2.prems" have "list_all (list_all isspace) (paragraph_pieces (cur @ [c]) cs)"
      by simp
    with "2.IH"(3) plain have "list_all isspace (cur @ [c]) \<and> list_all isspace cs" by simp
    then show ?thesis by simp
  qed
qed

lemma no_paragraphs_all_space: "split_paragraphs s = [] \<Longrightarrow> list_all isspace s"
proof -
  assume "split_paragraphs s = []"
  then have "list_all (list_all isspace) (paragraph_pieces [] s)"
    by (simp add: split_paragraphs_def filter_empty_conv strip_empty_iff list_all_iff)
  then show ?thesis using paragraph_pieces_all_space by blast
qed

lemma collapse_ws_all_space:
  "list_all isspace s \<Longrightarrow> collapse_ws s = (if s = [] then [] else [0x20])"
proof (cases s)
  case Nil
  then show ?thesis by simp
next
  case (Cons c cs)
  assume "list_all isspace s"
  with Cons have c: "isspace c" and d: "dropWhile isspace cs = []"
    by (simp_all add: list_all_iff)
  show ?thesis unfolding Cons collapse_ws.simps d using c by simp
qed

lemma all_space_no_sentences: "list_all isspace s \<Longrightarrow> split_sentences s = []"
proof -
  assume a: "list_all isspace s"
  have e: "strip (collapse_ws s) = []"
    using collapse_ws_all_space [OF a] by (simp add: strip_empty_iff isspace_def)
  show ?thesis
    unfolding split_sentences_def e by (simp add: strip_def lstrip_def rstrip_def)
qed

lemma no_paragraphs_no_sentences:
  "all_paragraphs (StyleAnalyzer U ss) = [] \<Longrightarrow> all_sentences (StyleAnalyzer U ss) = []"
  by (auto simp: StyleAnalyzer_def dest!: no_paragraphs_all_space all_space_no_sentences)

section \<open>The variation of the sentence lengths\<close>

lemma analyze_rhythm_variation:
  "snd (analyze_rhythm U (StyleAnalyzer U ss)) = guarded_variation U (sentence_lengths U ss)"
proof (cases "all_paragraphs (StyleAnalyzer U ss) = []")
  case True
  then have "all_sentences (StyleAnalyzer U ss) = []" by (rule no_paragraphs_no_sentences)
  then have "sentence_lengths U ss = []"
    by (simp add: sentence_lengths_def StyleAnalyzer_def)
  with True show ?thesis
    by (simp add: analyze_rhythm_def guarded_variation_def)
next
  case False
  have "sentence_lengths U ss = map (count_words U) (all_sentences (StyleAnalyzer U ss))"
    by (simp add: sentence_lengths_def StyleAnalyzer_def)
  with False show ?thesis
    by (simp add: analyze_rhythm_def guarded_variation_def classify_cv_def Let_def)
qed

lemma guarded_is_claimed:
  "1 \<le> fl_mean U lengths \<Longrightarrow> guarded_variation U lengths = claimed_variation U lengths"
  by (simp add: guarded_variation_def claimed_variation_def max_def)

lemma ascii_runtime_arithmetic:
  "fl_mean ascii_runtime = exact_mean" "fl_std ascii_runtime = exact_std"
  "fl_div ascii_runtime x y = x / y" "fl_mul ascii_runtime x y = x * y"
  "fl_round ascii_runtime = exact_round" "fl_lit ascii_runtime x = x"
  by (simp_all add: ascii_runtime_def)

text \<open>
  C7, the counterexample. The sample \<^verbatim>\<open>Wow! "?!"\<close> has two sentences, of 1 and 0 words:
  mean 1/2, standard deviation 1/2 (both are floats, and numpy computes them without
  rounding). Their coefficient of variation is 1, which the claim classifies as high;
  the analyzer divides by \<^verbatim>\<open>max(mean, 1)\<close>, gets 1/2, and answers medium.
\<close>

theorem variation_not_by_std_over_mean:
  "sentence_lengths ascii_runtime [str ''Wow! \"?!\"''] = [1, 0]
   \<and> fl_div ascii_runtime (fl_std ascii_runtime [1, 0]) (fl_mean ascii_runtime [1, 0]) = 1
   \<and> claimed_variation ascii_runtime [1, 0] = str ''high''
   \<and> sentence_length_variation (metrics (analyze ascii_runtime [str ''Wow! \"?!\"''])) = str ''medium''"
proof -
  have l: "sentence_lengths ascii_runtime [str ''Wow! \"?!\"''] = [1, 0]"
    by (simp add: sentence_lengths_def text_defs)
  have s: "fl_std ascii_runtime [1, 0] = 1 / 2" and m: "fl_mean ascii_runtime [1, 0] = 1 / 2"
    by (simp_all add: ascii_runtime_arithmetic number_defs)
  have c: "claimed_variation ascii_runtime [1, 0] = str ''high''"
    unfolding claimed_variation_def classify_cv_def s m
    by (simp add: ascii_runtime_arithmetic)
  have "sentence_length_variation (metrics (analyze ascii_runtime [str ''Wow! \"?!\"'']))
          = guarded_variation ascii_runtime [1, 0]"
    by (simp add: metrics_analyze metrics_rhythm analyze_rhythm_variation l)
  also have "\<dots> = str ''medium''"
    unfolding guarded_variation_def classify_cv_def s m
    by (simp add: ascii_runtime_arithmetic)
  finally show ?thesis using l s m c by (simp add: ascii_runtime_arithmetic)
qed

text \<open>
  C7, amended. For every sample list and whatever the floating point arithmetic
  computes, the variation is classified from the quotient of the standard deviation of
  the per-sentence word counts by the larger of their mean and 1 (standard deviation,
  mean and quotient as numpy and Python compute them): high when the quotient exceeds
  the float of \<^verbatim>\<open>0.7\<close>, medium when it exceeds the float of \<^verbatim>\<open>0.4\<close>, low otherwise, and low
  when there are fewer than 2 sentences. When the computed mean is at least 1 this is
  the classification of the claim.
\<close>

theorem variation_by_guarded_cv:
  "sentence_length_variation (metrics (analyze U ss)) = guarded_variation U (sentence_lengths U ss)
   \<and> (1 \<le> fl_mean U (sentence_lengths U ss) \<longrightarrow>
        sentence_length_variation (metrics (analyze U ss)) = claimed_variation U (sentence_lengths U ss))"
  by (simp add: metrics_analyze metrics_rhythm analyze_rhythm_variation guarded_is_claimed)

theorem variation_by_guarded_cv_witness:
  "1 \<le> fl_mean ascii_runtime (sentence_lengths ascii_runtime [str ''Stop. We all like long walks here.''])
   \<and> sentence_length_variation (metrics (analyze ascii_runtime [str ''Stop. We all like long walks here.'']))
       = str ''high''"
proof -
  have l: "sentence_lengths ascii_runtime [str ''Stop. We all like long walks here.''] = [1, 6]"
    by (simp add: sentence_lengths_def text_defs)
  have m: "fl_mean ascii_runtime [1, 6] = 7 / 2" and s: "fl_std ascii_runtime [1, 6] = 5 / 2"
    by (simp_all add: ascii_runtime_arithmetic number_defs)
  have c: "claimed_variation ascii_runtime [1, 6] = str ''high''"
    unfolding claimed_variation_def classify_cv_def s m
    by (simp add: ascii_runtime_arithmetic)
  have p: "1 \<le> fl_mean ascii_runtime (sentence_lengths ascii_runtime [str ''Stop. We all like long walks here.''])"
    unfolding l m by simp
  have "sentence_length_variation (metrics (analyze ascii_runtime [str ''Stop. We all like long walks here.'']))
          = claimed_variation ascii_runtime (sentence_lengths ascii_runtime [str ''Stop. We all like long walks here.''])"
    using variation_by_guarded_cv [of ascii_runtime "[str ''Stop. We all like long walks here.'']"] p
    by blast
  then have "sentence_length_variation (metrics (analyze ascii_runtime [str ''Stop. We all like long walks here.'']))
          = str ''high''"
    unfolding l c .
  with p show ?thesis by blast
qed

section \<open>The fields of the profile\<close>

lemma profile_fields:
  "signature_phrases (analyze U ss) = extract_signature_phrases U (StyleAnalyzer U ss) 10"
  "vocabulary_preferences (analyze U ss) = extract_vocabulary_preferences U (StyleAnalyzer U ss) 15"
  "sentence_starters (analyze U ss) = extract_sentence_starters U (StyleAnalyzer U ss) 10"
  "transition_words (analyze U ss) = extract_transition_words (StyleAnalyzer U ss) 10"
  "formatting_style (analyze U ss) = describe_formatting_style U (StyleAnalyzer U ss)"
  "sample_excerpts (analyze U ss) = extract_sample_excerpts (StyleAnalyzer U ss) 5 200"
  "raw_style_summary (analyze U ss) = generate_style_summary U (StyleAnalyzer U ss)"
  by (simp_all add: analyze_def Let_def)

section \<open>Transition words\<close>

lemma in_fact_words:
  "all_words (StyleAnalyzer ascii_runtime [str ''In fact it works. However, in fact it does.''])
     = map str [''in'', ''fact'', ''it'', ''works'', ''however'', ''in'', ''fact'', ''it'', ''does'']"
  by (simp add: text_defs)

text \<open>
  C5, the failing input. The corpus \<^verbatim>\<open>In fact it works. However, in fact it does.\<close> holds the
  candidate \<^verbatim>\<open>in fact\<close> twice and the candidate \<^verbatim>\<open>however\<close> once. The candidates are looked up
  in the counter of the single words, where no phrase of several words is a key: the
  result is \<^verbatim>\<open>however\<close> alone.
\<close>

theorem multiword_candidate_not_found:
  "str ''in fact'' \<in> set transition_candidates
   \<and> all_words (StyleAnalyzer ascii_runtime [str ''In fact it works. However, in fact it does.''])
       = map str [''in'', ''fact'', ''it'', ''works'', ''however'', ''in'', ''fact'', ''it'', ''does'']
   \<and> transition_words (analyze ascii_runtime [str ''In fact it works. However, in fact it does.''])
       = [str ''however'']"
proof -
  have "str ''in fact'' \<in> set transition_candidates"
    by (simp add: transition_candidates_def)
  moreover have "transition_words (analyze ascii_runtime [str ''In fact it works. However, in fact it does.''])
       = [str ''however'']"
    unfolding profile_fields extract_transition_words_def in_fact_words
    by (simp add: Counter_def transition_candidates_def str_def)
  ultimately show ?thesis using in_fact_words by simp
qed

section \<open>Signature phrases\<close>

lemma counter_add_keys:
  "map fst (counter_add x acc) = (if x \<in> set (map fst acc) then map fst acc else map fst acc @ [x])"
  by (induction x acc rule: counter_add.induct) auto

lemma counter_foldl_keys:
  "distinct (map fst acc) \<Longrightarrow>
     distinct (map fst (foldl (\<lambda>acc x. counter_add x acc) acc xs))
     \<and> set (map fst (foldl (\<lambda>acc x. counter_add x acc) acc xs)) = set (map fst acc) \<union> set xs"
proof (induction xs arbitrary: acc)
  case Nil
  then show ?case by simp
next
  case (Cons x xs)
  have d: "distinct (map fst (counter_add x acc))"
    using Cons.prems by (simp add: counter_add_keys)
  have s: "set (map fst (counter_add x acc)) = insert x (set (map fst acc))"
    by (auto simp: counter_add_keys)
  show ?case
    using Cons.IH [OF d] s by auto
qed

lemma Counter_keys: "distinct (map fst (Counter xs))" "set (map fst (Counter xs)) = set xs"
  using counter_foldl_keys [of "[]" xs] by (simp_all add: Counter_def)

lemma most_common_keys:
  assumes "distinct (map fst cnt)"
  shows "distinct (map fst (most_common n cnt))"
    and "set (map fst (most_common n cnt)) \<subseteq> set (map fst cnt)"
proof -
  have "distinct (map fst (sort_key (\<lambda>(x, c). - int c) cnt))"
    using assms by (simp add: distinct_map)
  then show "distinct (map fst (most_common n cnt))"
    by (simp add: most_common_def take_map [symmetric] distinct_take)
  have "set (take n (sort_key (\<lambda>(x, c). - int c) cnt)) \<subseteq> set cnt"
    using set_take_subset [of n "sort_key (\<lambda>(x, c). - int c) cnt"] by simp
  then show "set (map fst (most_common n cnt)) \<subseteq> set (map fst cnt)"
    unfolding most_common_def by auto
qed

lemma extract_ngrams_gram:
  "g \<in> set (extract_ngrams ws n) \<Longrightarrow> length g = n \<and> set g \<subseteq> set ws"
proof -
  assume "g \<in> set (extract_ngrams ws n)"
  then obtain i where i: "i < Suc (length ws) - n" and g: "g = take n (drop i ws)"
    by (auto simp: extract_ngrams_def)
  from i have "n \<le> length ws - i" by arith
  then have "length g = n" by (simp add: g)
  moreover have "set g \<subseteq> set ws"
    unfolding g by (meson set_drop_subset set_take_subset subset_trans)
  ultimately show ?thesis by simp
qed

lemma ngram_counts_gram:
  assumes "words_without_space U ss" and "g \<in> set (map fst (most_common k (ngram_counts U ss n)))"
  shows "length g = n \<and> (\<forall>w\<in>set g. 0x20 \<notin> set w)"
proof -
  have "set (map fst (most_common k (ngram_counts U ss n))) \<subseteq> set (map fst (ngram_counts U ss n))"
    unfolding ngram_counts_def by (rule most_common_keys(2) [OF Counter_keys(1)])
  with assms(2) have "g \<in> set (map fst (ngram_counts U ss n))"
    by (rule rev_subsetD)
  then obtain s where s: "s \<in> set ss" and g: "g \<in> set (extract_ngrams (get_words U s) n)"
    unfolding ngram_counts_def Counter_keys(2) by auto
  from extract_ngrams_gram [OF g] have "length g = n" and "set g \<subseteq> set (get_words U s)"
    by simp_all
  with s assms(1) show ?thesis
    by (auto simp: words_without_space_def)
qed

lemma bigram_phrase_inj:
  assumes "0x20 \<notin> set a" "0x20 \<notin> set a'" "py_join [0x20] [a, b] = py_join [0x20] [a', b']"
  shows "[a, b] = [a', b']"
proof -
  have e: "a @ 0x20 # b = a' @ 0x20 # b'" using assms(3) by simp
  have "takeWhile (\<lambda>x. x \<noteq> 0x20) (a @ 0x20 # b) = a"
    using assms(1) by (auto simp: takeWhile_tail)
  moreover have "takeWhile (\<lambda>x. x \<noteq> 0x20) (a' @ 0x20 # b') = a'"
    using assms(2) by (auto simp: takeWhile_tail)
  ultimately have "a = a'" using e by simp
  with e show ?thesis by simp
qed

lemma count_spaces_bigram:
  "0x20 \<notin> set a \<Longrightarrow> 0x20 \<notin> set b \<Longrightarrow> count_list (py_join [0x20] [a, b]) 0x20 = 1"
  by (auto simp: count_list_0_iff)

lemma count_spaces_trigram:
  "0x20 \<notin> set a \<Longrightarrow> 0x20 \<notin> set b \<Longrightarrow> 0x20 \<notin> set c \<Longrightarrow>
     count_list (py_join [0x20] [a, b, c]) 0x20 = 2"
  by (auto simp: count_list_0_iff)

lemma list_of_length_2: "length g = 2 \<Longrightarrow> \<exists>a b. g = [a, b]"
  by (auto simp: length_Suc_conv numeral_2_eq_2)

lemma list_of_length_3: "length g = 3 \<Longrightarrow> \<exists>a b c. g = [a, b, c]"
  by (auto simp: length_Suc_conv numeral_3_eq_3)

lemma trigram_loop_Cons:
  "trigram_loop n (e # rest) phrases =
     (if qualifies e then
        (if length (phrases @ [phrase e]) \<ge> n div 2 then phrases @ [phrase e]
         else trigram_loop n rest (phrases @ [phrase e]))
      else trigram_loop n rest phrases)"
  by (cases e) (simp add: qualifies_def phrase_def)

lemma bigram_loop_Cons:
  "bigram_loop n (e # rest) phrases =
     (if qualifies e then
        (if phrase e \<notin> set phrases then
           (if length (phrases @ [phrase e]) \<ge> n then phrases @ [phrase e]
            else bigram_loop n rest (phrases @ [phrase e]))
         else if length phrases \<ge> n then phrases else bigram_loop n rest phrases)
      else bigram_loop n rest phrases)"
  by (cases e) (simp add: qualifies_def phrase_def Let_def)

lemma trigram_loop_take:
  "length phrases < max 1 (n div 2) \<Longrightarrow>
     trigram_loop n cnt phrases
       = phrases @ take (max 1 (n div 2) - length phrases) (map phrase (filter qualifies cnt))"
proof (induction cnt arbitrary: phrases)
  case Nil
  then show ?case by simp
next
  case (Cons e cnt)
  show ?case
  proof (cases "qualifies e")
    case False
    then have 1: "trigram_loop n (e # cnt) phrases = trigram_loop n cnt phrases"
      unfolding trigram_loop_Cons by simp
    have 2: "filter qualifies (e # cnt) = filter qualifies cnt"
      using False by simp
    show ?thesis unfolding 1 2 using Cons.prems by (rule Cons.IH)
  next
    case True
    define p where "p = phrases @ [phrase e]"
    have 2: "map phrase (filter qualifies (e # cnt)) = phrase e # map phrase (filter qualifies cnt)"
      using True by simp
    show ?thesis
    proof (cases "length p \<ge> n div 2")
      case stop: True
      then have 1: "trigram_loop n (e # cnt) phrases = p"
        using True unfolding trigram_loop_Cons p_def by simp
      have "max 1 (n div 2) - length phrases = Suc 0"
        using stop Cons.prems by (simp add: p_def max_def split: if_splits)
      then show ?thesis unfolding 1 2 by (simp add: p_def)
    next
      case go: False
      then have 1: "trigram_loop n (e # cnt) phrases = trigram_loop n cnt p"
        using True unfolding trigram_loop_Cons p_def by simp
      from go have l: "length p < max 1 (n div 2)" by simp
      have 3: "max 1 (n div 2) - length phrases = Suc (max 1 (n div 2) - length p)"
        using l by (simp add: p_def)
      show ?thesis unfolding 1 2 3 Cons.IH [OF l] by (simp add: p_def)
    qed
  qed
qed

lemma bigram_loop_take:
  "distinct (map phrase (filter qualifies cnt)) \<Longrightarrow>
   set (map phrase (filter qualifies cnt)) \<inter> set phrases = {} \<Longrightarrow>
     take n (bigram_loop n cnt phrases) = take n (phrases @ map phrase (filter qualifies cnt))"
proof (induction cnt arbitrary: phrases)
  case Nil
  then show ?case by simp
next
  case (Cons e cnt)
  show ?case
  proof (cases "qualifies e")
    case False
    then have 1: "bigram_loop n (e # cnt) phrases = bigram_loop n cnt phrases"
      unfolding bigram_loop_Cons by simp
    have 2: "filter qualifies (e # cnt) = filter qualifies cnt"
      using False by simp
    show ?thesis unfolding 1 2 using Cons.prems unfolding 2 by (rule Cons.IH)
  next
    case True
    define p where "p = phrases @ [phrase e]"
    have 2: "map phrase (filter qualifies (e # cnt)) = phrase e # map phrase (filter qualifies cnt)"
      using True by simp
    from Cons.prems(2) have new: "phrase e \<notin> set phrases"
      unfolding 2 by auto
    from Cons.prems have d: "distinct (map phrase (filter qualifies cnt))"
      and i: "set (map phrase (filter qualifies cnt)) \<inter> set p = {}"
      unfolding 2 p_def by auto
    have 4: "phrases @ phrase e # map phrase (filter qualifies cnt)
               = p @ map phrase (filter qualifies cnt)"
      by (simp add: p_def)
    show ?thesis
    proof (cases "length p \<ge> n")
      case stop: True
      then have 1: "bigram_loop n (e # cnt) phrases = p"
        using True new unfolding bigram_loop_Cons p_def by simp
      show ?thesis unfolding 1 2 4 using stop by simp
    next
      case go: False
      then have 1: "bigram_loop n (e # cnt) phrases = bigram_loop n cnt p"
        using True new unfolding bigram_loop_Cons p_def by simp
      show ?thesis unfolding 1 2 4 using d i by (rule Cons.IH)
    qed
  qed
qed

lemma most_common_descending:
  "sorted_wrt (\<lambda>a b. snd a \<ge> snd b) (most_common n cnt)"
proof -
  have "sorted (map (\<lambda>(x, c). - int c) (sort_key (\<lambda>(x, c). - int c) cnt))"
    by (rule sorted_sort_key)
  then have "sorted_wrt (\<lambda>a b. snd a \<ge> snd b) (sort_key (\<lambda>(x, c). - int c) cnt)"
    by (simp add: sorted_map case_prod_unfold)
  then show ?thesis
    unfolding most_common_def by (rule sorted_wrt_take)
qed

lemma qualifying_bigrams_distinct:
  assumes "words_without_space U ss"
  shows "distinct (map phrase (filter qualifies (most_common 50 (ngram_counts U ss 2))))"
proof -
  define B where "B = most_common 50 (ngram_counts U ss 2)"
  have k: "distinct (map fst B)"
    unfolding B_def ngram_counts_def by (rule most_common_keys(1) [OF Counter_keys(1)])
  have "inj_on phrase (set (filter qualifies B))"
  proof (rule inj_onI)
    fix e e' assume e: "e \<in> set (filter qualifies B)" and e': "e' \<in> set (filter qualifies B)"
      and p: "phrase e = phrase e'"
    from e have "fst e \<in> set (map fst (most_common 50 (ngram_counts U ss 2)))"
      by (auto simp: B_def)
    from ngram_counts_gram [OF assms this]
    obtain a b where g: "fst e = [a, b]" and a: "0x20 \<notin> set a"
      using list_of_length_2 by fastforce
    from e' have "fst e' \<in> set (map fst (most_common 50 (ngram_counts U ss 2)))"
      by (auto simp: B_def)
    from ngram_counts_gram [OF assms this]
    obtain a' b' where g': "fst e' = [a', b']" and a': "0x20 \<notin> set a'"
      using list_of_length_2 by fastforce
    from p have "py_join [0x20] [a, b] = py_join [0x20] [a', b']"
      by (simp add: phrase_def g g')
    from bigram_phrase_inj [OF a a' this] have "fst e = fst e'" by (simp add: g g')
    moreover from k have "inj_on fst (set B)" by (simp add: distinct_map)
    ultimately show "e = e'" using e e' by (auto dest: inj_onD)
  qed
  moreover from k have "distinct (filter qualifies B)"
    by (simp add: distinct_map)
  ultimately show ?thesis
    unfolding B_def [symmetric] by (simp add: distinct_map)
qed

lemma bigram_phrase_not_trigram_phrase:
  assumes "words_without_space U ss"
    and "e \<in> set (most_common 50 (ngram_counts U ss 2))"
    and "e' \<in> set (most_common 50 (ngram_counts U ss 3))"
  shows "phrase e \<noteq> phrase e'"
proof -
  from assms(2) have "fst e \<in> set (map fst (most_common 50 (ngram_counts U ss 2)))"
    by auto
  from ngram_counts_gram [OF assms(1) this]
  obtain a b where g: "fst e = [a, b]" and s: "0x20 \<notin> set a" "0x20 \<notin> set b"
    using list_of_length_2 by fastforce
  from assms(3) have "fst e' \<in> set (map fst (most_common 50 (ngram_counts U ss 3)))"
    by auto
  from ngram_counts_gram [OF assms(1) this]
  obtain a' b' c' where g': "fst e' = [a', b', c']"
    and s': "0x20 \<notin> set a'" "0x20 \<notin> set b'" "0x20 \<notin> set c'"
    using list_of_length_3 by fastforce
  have "count_list (phrase e) 0x20 = 1"
    unfolding phrase_def g using s by (rule count_spaces_bigram)
  moreover have "count_list (phrase e') 0x20 = 2"
    unfolding phrase_def g' using s' by (rule count_spaces_trigram)
  ultimately show ?thesis by auto
qed

lemma extract_signature_phrases_closed_form:
  assumes "words_without_space U ss" and "2 \<le> n"
  shows "extract_signature_phrases U (StyleAnalyzer U ss) n
           = take n (take (n div 2) (qualifying_phrases (ngram_counts U ss 3))
                     @ qualifying_phrases (ngram_counts U ss 2))"
proof -
  define T where "T = take (n div 2) (qualifying_phrases (ngram_counts U ss 3))"
  have "1 \<le> n div 2" using assms(2) by simp
  then have m: "max (Suc 0) (n div 2) = n div 2" by simp
  have "trigram_loop n (most_common 50 (ngram_counts U ss 3)) []
          = [] @ take (max 1 (n div 2) - length ([] :: pystr list))
                   (map phrase (filter qualifies (most_common 50 (ngram_counts U ss 3))))"
    by (rule trigram_loop_take) simp
  then have t: "trigram_loop n (most_common 50 (ngram_counts U ss 3)) [] = T"
    by (simp add: m T_def qualifying_phrases_def)
  have d: "distinct (map phrase (filter qualifies (most_common 50 (ngram_counts U ss 2))))"
    using assms(1) by (rule qualifying_bigrams_distinct)
  have i: "set (map phrase (filter qualifies (most_common 50 (ngram_counts U ss 2)))) \<inter> set T = {}"
  proof -
    have "x \<notin> set T" if "x \<in> set (map phrase (filter qualifies (most_common 50 (ngram_counts U ss 2))))" for x
    proof
      assume "x \<in> set T"
      then have "x \<in> set (qualifying_phrases (ngram_counts U ss 3))"
        unfolding T_def by (rule in_set_takeD)
      then obtain e' where "e' \<in> set (most_common 50 (ngram_counts U ss 3))" "x = phrase e'"
        by (auto simp: qualifying_phrases_def)
      moreover from that obtain e where "e \<in> set (most_common 50 (ngram_counts U ss 2))" "x = phrase e"
        by auto
      ultimately show False
        using bigram_phrase_not_trigram_phrase [OF assms(1)] by metis
    qed
    then show ?thesis by blast
  qed
  have "extract_signature_phrases U (StyleAnalyzer U ss) n
          = take n (bigram_loop n (most_common 50 (ngram_counts U ss 2)) T)"
    by (simp add: extract_signature_phrases_def Let_def ngram_counts_def StyleAnalyzer_def t [unfolded ngram_counts_def])
  also have "\<dots> = take n (T @ map phrase (filter qualifies (most_common 50 (ngram_counts U ss 2))))"
    using d i by (rule bigram_loop_take)
  finally show ?thesis
    by (simp only: T_def qualifying_phrases_def)
qed

lemma words_of_deep_learning:
  "get_words ascii_runtime (str ''Deep learning rocks. Deep learning rocks.'')
     = map str [''deep'', ''learning'', ''rocks'', ''deep'', ''learning'', ''rocks'']"
  by (simp add: text_defs)

lemma uncommon_words:
  "str ''deep'' \<notin> set COMMON_WORDS" "str ''learning'' \<notin> set COMMON_WORDS"
  by (simp_all add: COMMON_WORDS_def str_def)

lemma phrases_of_deep_learning:
  "extract_signature_phrases ascii_runtime
     (StyleAnalyzer ascii_runtime [str ''Deep learning rocks. Deep learning rocks.'']) 10
     = [str ''deep learning rocks'', str ''deep learning'', str ''learning rocks'']"
proof -
  note c = uncommon_words [unfolded str_def, simplified]
  have s: "samples (StyleAnalyzer ascii_runtime ss) = ss" for ss
    by (simp add: StyleAnalyzer_def)
  have w: "map (\<lambda>sample. extract_ngrams (get_words ascii_runtime sample) n)
             [str ''Deep learning rocks. Deep learning rocks.'']
           = [extract_ngrams (map str [''deep'', ''learning'', ''rocks'', ''deep'', ''learning'', ''rocks'']) n]" for n
    by (simp only: list.map words_of_deep_learning)
  show ?thesis
    unfolding extract_signature_phrases_def s Let_def w
    by (simp add: extract_ngrams_def Counter_def most_common_def all_common_def str_def c)
qed

lemma bigrams_of_deep_learning:
  "ngram_counts ascii_runtime [str ''Deep learning rocks. Deep learning rocks.''] 2
     = [(map str [''deep'', ''learning''], 2), (map str [''learning'', ''rocks''], 2),
        (map str [''rocks'', ''deep''], 1)]"
proof -
  have w: "map (\<lambda>sample. extract_ngrams (get_words ascii_runtime sample) 2)
             [str ''Deep learning rocks. Deep learning rocks.'']
           = [extract_ngrams (map str [''deep'', ''learning'', ''rocks'', ''deep'', ''learning'', ''rocks'']) 2]"
    by (simp only: list.map words_of_deep_learning)
  show ?thesis
    unfolding ngram_counts_def w
    by (simp add: extract_ngrams_def Counter_def str_def)
qed

text \<open>
  What the miner returns, for every sample list and every requested number \<open>n\<close> of
  phrases (at least 2; the pipeline asks for 10): the phrases of the qualifying entries
  among the 50 most common trigrams, at most \<open>n div 2\<close> of them, then those of the
  qualifying entries among the 50 most common bigrams, until \<open>n\<close> phrases are reached. A
  bigram's phrase is never equal to a phrase accepted before it, so the test
  \<^verbatim>\<open>phrase not in phrases\<close> of the second loop never fails.
\<close>

lemma signature_phrases_trigrams_then_bigrams:
  assumes "words_without_space U ss" and "2 \<le> n"
  shows "extract_signature_phrases U (StyleAnalyzer U ss) n
           = take n (take (n div 2) (qualifying_phrases (ngram_counts U ss 3))
                     @ qualifying_phrases (ngram_counts U ss 2))
         \<and> sorted_wrt (\<lambda>a b. snd a \<ge> snd b) (most_common 50 (ngram_counts U ss 3))
         \<and> sorted_wrt (\<lambda>a b. snd a \<ge> snd b) (most_common 50 (ngram_counts U ss 2))"
  using extract_signature_phrases_closed_form [OF assms] most_common_descending by blast

text \<open>
  C4, the failing input. In \<^verbatim>\<open>Deep learning rocks. Deep learning rocks.\<close> the trigram
  \<^verbatim>\<open>deep learning rocks\<close> and the bigrams \<^verbatim>\<open>deep learning\<close> and \<^verbatim>\<open>learning rocks\<close> occur twice
  each. The trigram is accepted first. Both bigrams are substrings of it, and both are
  returned all the same: the test \<^verbatim>\<open>phrase not in phrases\<close> that is meant to skip them asks
  whether the list holds the phrase itself, which it never does. Both are returned with
  a count of 2, where the comment of the second loop announces bigrams that appear 3
  times or more.
\<close>

theorem substring_bigram_not_skipped:
  "signature_phrases (analyze ascii_runtime [str ''Deep learning rocks. Deep learning rocks.''])
     = [str ''deep learning rocks'', str ''deep learning'', str ''learning rocks'']
   \<and> str ''deep learning rocks'' = str ''deep learning'' @ str '' rocks''
   \<and> str ''deep learning rocks'' = str ''deep '' @ str ''learning rocks''
   \<and> ngram_counts ascii_runtime [str ''Deep learning rocks. Deep learning rocks.''] 2
     = [(map str [''deep'', ''learning''], 2), (map str [''learning'', ''rocks''], 2),
        (map str [''rocks'', ''deep''], 1)]"
  by (simp add: profile_fields phrases_of_deep_learning bigrams_of_deep_learning)
    (simp add: str_def)

section \<open>Stripping\<close>

lemma rstrip_take: "rstrip y = take (length y - length (takeWhile isspace (rev y))) y"
proof -
  have "rev y = takeWhile isspace (rev y) @ dropWhile isspace (rev y)" by simp
  then have "y = rev (dropWhile isspace (rev y)) @ rev (takeWhile isspace (rev y))"
    by (metis rev_append rev_rev_ident)
  then have y: "y = rstrip y @ rev (takeWhile isspace (rev y))"
    by (simp add: rstrip_def)
  have "length (rstrip y) = length y - length (takeWhile isspace (rev y))"
    using arg_cong [OF y, of length] by simp
  then show ?thesis
    using y by (metis append_eq_conv_conj)
qed

lemma lstrip_drop: "lstrip p = drop (length (takeWhile isspace p)) p"
  by (simp add: lstrip_def dropWhile_eq_drop)

lemma strip_take_drop: "\<exists>j k. strip p = take k (drop j p)"
  unfolding strip_def using rstrip_take [of "lstrip p"] lstrip_drop [of p] by metis

lemma lstrip_ends: "lstrip p \<noteq> [] \<Longrightarrow> \<not> isspace (hd (lstrip p))"
  unfolding lstrip_def by (rule hd_dropWhile)

lemma rstrip_ends:
  assumes "rstrip y \<noteq> []"
  shows "\<not> isspace (last (rstrip y))" and "hd (rstrip y) = hd y"
proof -
  let ?z = "dropWhile isspace (rev y)"
  from assms have z: "?z \<noteq> []" by (simp add: rstrip_def)
  then have "\<not> isspace (hd ?z)" by (rule hd_dropWhile)
  moreover have "last (rev ?z) = hd ?z" using z by (simp add: last_rev)
  ultimately show "\<not> isspace (last (rstrip y))" by (simp add: rstrip_def)
  have "rstrip y = take (length y - length (takeWhile isspace (rev y))) y" by (rule rstrip_take)
  with assms show "hd (rstrip y) = hd y"
    by (metis hd_take take_eq_Nil gr0I)
qed

lemma strip_ends:
  assumes "strip p \<noteq> []"
  shows "\<not> isspace (hd (strip p))" and "\<not> isspace (last (strip p))"
proof -
  from assms have r: "rstrip (lstrip p) \<noteq> []" by (simp add: strip_def)
  then have l: "lstrip p \<noteq> []" by (auto simp: rstrip_def)
  from rstrip_ends(2) [OF r] lstrip_ends [OF l] show "\<not> isspace (hd (strip p))"
    by (simp add: strip_def)
  from rstrip_ends(1) [OF r] show "\<not> isspace (last (strip p))"
    by (simp add: strip_def)
qed

lemma strip_fixed:
  assumes "q \<noteq> []" "\<not> isspace (hd q)" "\<not> isspace (last q)"
  shows "strip q = q"
proof -
  from assms(1,2) have "lstrip q = q"
    by (cases q) (simp_all add: lstrip_def)
  moreover from assms(1,3) have "dropWhile isspace (rev q) = rev q"
    by (cases "rev q") (simp_all add: last_rev [symmetric] hd_rev)
  ultimately show ?thesis by (simp add: strip_def rstrip_def)
qed

lemma strip_idem: "strip (strip p) = strip p"
proof (cases "strip p = []")
  case True
  have "strip [] = []" by (simp add: strip_def lstrip_def rstrip_def)
  then show ?thesis unfolding True .
next
  case False
  then show ?thesis using strip_ends [OF False] by (rule strip_fixed)
qed

lemma filter_nonspace_strip:
  "filter (\<lambda>c. \<not> isspace c) (strip p) = filter (\<lambda>c. \<not> isspace c) p"
proof -
  have l: "filter (\<lambda>c. \<not> isspace c) (dropWhile isspace q) = filter (\<lambda>c. \<not> isspace c) q" for q
    by (induction q) simp_all
  have "filter (\<lambda>c. \<not> isspace c) (rstrip q) = filter (\<lambda>c. \<not> isspace c) q" for q
  proof -
    have "rev (filter (\<lambda>c. \<not> isspace c) (rstrip q))
            = filter (\<lambda>c. \<not> isspace c) (dropWhile isspace (rev q))"
      by (simp add: rstrip_def rev_filter)
    also have "\<dots> = rev (filter (\<lambda>c. \<not> isspace c) q)"
      by (simp add: l rev_filter)
    finally show ?thesis by simp
  qed
  then show ?thesis by (simp add: strip_def lstrip_def l)
qed

section \<open>Paragraphs\<close>

lemma has_break_iff: "has_break p \<longleftrightarrow> (\<exists>i<length p. break_at (drop i p))"
proof (induction p)
  case Nil
  then show ?case by simp
next
  case (Cons c cs)
  have "(\<exists>i<length (c # cs). break_at (drop i (c # cs)))
          \<longleftrightarrow> break_at (c # cs) \<or> (\<exists>i<length cs. break_at (drop i cs))"
  proof
    assume "\<exists>i<length (c # cs). break_at (drop i (c # cs))"
    then obtain i where i: "i < length (c # cs)" "break_at (drop i (c # cs))" by blast
    then show "break_at (c # cs) \<or> (\<exists>i<length cs. break_at (drop i cs))"
      by (cases i) auto
  next
    assume "break_at (c # cs) \<or> (\<exists>i<length cs. break_at (drop i cs))"
    then show "\<exists>i<length (c # cs). break_at (drop i (c # cs))"
    proof
      assume "break_at (c # cs)"
      then have "0 < length (c # cs) \<and> break_at (drop 0 (c # cs))" by simp
      then show ?thesis by blast
    next
      assume "\<exists>i<length cs. break_at (drop i cs)"
      then obtain i where "i < length cs" "break_at (drop i cs)" by blast
      then have "Suc i < length (c # cs) \<and> break_at (drop (Suc i) (c # cs))" by simp
      then show ?thesis by blast
    qed
  qed
  with Cons show ?case by simp
qed

lemma takeWhile_take_subset: "set (takeWhile P (take k xs)) \<subseteq> set (takeWhile P xs)"
proof (induction xs arbitrary: k)
  case Nil
  then show ?case by simp
next
  case (Cons x xs)
  then show ?case by (cases k) auto
qed

lemma dropWhile_take_Cons:
  "dropWhile P (take k xs) = d # r \<Longrightarrow> \<exists>r'. dropWhile P xs = d # r'"
proof (induction xs arbitrary: k)
  case Nil
  then show ?case by simp
next
  case (Cons x xs)
  then show ?case by (cases k) (auto split: if_splits)
qed

lemma break_at_take: "break_at (take k t) \<Longrightarrow> break_at t"
proof (cases t)
  case Nil
  assume "break_at (take k t)"
  with Nil show ?thesis by simp
next
  case (Cons c cs)
  assume b: "break_at (take k t)"
  show ?thesis
  proof (cases k)
    case 0
    with b show ?thesis by (simp add: break_at_def)
  next
    case (Suc k')
    with b Cons have c: "c = 0x0A"
      and alt: "0x0A \<in> set (takeWhile isspace (take k' cs))
             \<or> (case dropWhile isspace (take k' cs) of [] \<Rightarrow> False | d # _ \<Rightarrow> bullet_char d)"
      by (simp_all add: break_at_def)
    from alt show ?thesis
    proof
      assume "0x0A \<in> set (takeWhile isspace (take k' cs))"
      then have "0x0A \<in> set (takeWhile isspace cs)"
        by (rule subsetD [OF takeWhile_take_subset])
      with c Cons show ?thesis by (simp add: break_at_def)
    next
      assume "case dropWhile isspace (take k' cs) of [] \<Rightarrow> False | d # _ \<Rightarrow> bullet_char d"
      then obtain d r where d: "dropWhile isspace (take k' cs) = d # r" "bullet_char d"
        by (auto split: list.splits)
      from dropWhile_take_Cons [OF d(1)] obtain r' where "dropWhile isspace cs = d # r'" ..
      with \<open>bullet_char d\<close> c Cons show ?thesis by (simp add: break_at_def)
    qed
  qed
qed

lemma has_break_take_drop: "has_break (take k (drop j p)) \<Longrightarrow> has_break p"
proof -
  assume "has_break (take k (drop j p))"
  then obtain i where i: "i < length (take k (drop j p))" and b: "break_at (drop i (take k (drop j p)))"
    unfolding has_break_iff by blast
  have "drop i (take k (drop j p)) = take (k - i) (drop (i + j) p)"
    by (simp add: drop_take add.commute)
  with b have "break_at (drop (i + j) p)" using break_at_take by metis
  moreover from i have "i + j < length p" by (simp add: less_diff_conv)
  ultimately show ?thesis unfolding has_break_iff by blast
qed

lemma has_break_strip: "has_break (strip p) \<Longrightarrow> has_break p"
  using strip_take_drop [of p] has_break_take_drop by metis

lemma paragraph_pieces_cases:
  "paragraph_pieces cur (c # cs) =
     (if break_at (c # cs) then
        cur # paragraph_pieces []
          (if 0x0A \<in> set (takeWhile isspace cs)
           then after_last_newline (takeWhile isspace cs) @ dropWhile isspace cs else cs)
      else paragraph_pieces (cur @ [c]) cs)"
  by (auto simp: break_at_def)

lemma paragraph_pieces_no_break:
  "(\<And>i. i < length cur \<Longrightarrow> \<not> break_at (drop i (cur @ t))) \<Longrightarrow>
     p \<in> set (paragraph_pieces cur t) \<Longrightarrow> \<not> has_break p"
proof (induction cur t rule: paragraph_pieces.induct)
  case (1 cur)
  then show ?case by (auto simp: has_break_iff)
next
  case (2 cur c cs)
  have cur: "\<not> has_break cur"
  proof
    assume "has_break cur"
    then obtain i where i: "i < length cur" and b: "break_at (drop i cur)"
      unfolding has_break_iff by blast
    have "drop i cur = take (length cur - i) (drop i (cur @ c # cs))" using i by simp
    with b have "break_at (drop i (cur @ c # cs))" using break_at_take by metis
    with "2.prems"(1) [OF i] show False by simp
  qed
  show ?case
  proof (cases "break_at (c # cs)")
    case True
    show ?thesis
    proof (cases "0x0A \<in> set (takeWhile isspace cs)")
      case blank: True
      with True "2.prems"(2) have "p = cur \<or> p \<in> set (paragraph_pieces []
          (after_last_newline (takeWhile isspace cs) @ dropWhile isspace cs))"
        by (simp add: paragraph_pieces_cases del: paragraph_pieces.simps)
      with cur "2.IH"(1) True blank show ?thesis by (auto simp: break_at_def)
    next
      case bullet: False
      with True "2.prems"(2) have "p = cur \<or> p \<in> set (paragraph_pieces [] cs)"
        by (simp add: paragraph_pieces_cases del: paragraph_pieces.simps)
      with cur "2.IH"(2) True bullet show ?thesis by (auto simp: break_at_def)
    qed
  next
    case False
    with "2.prems"(2) have p: "p \<in> set (paragraph_pieces (cur @ [c]) cs)"
      by (simp add: paragraph_pieces_cases del: paragraph_pieces.simps)
    have inv: "\<not> break_at (drop i ((cur @ [c]) @ cs))" if "i < length (cur @ [c])" for i
    proof (cases "i < length cur")
      case True
      with "2.prems"(1) [OF True] show ?thesis by simp
    next
      case no: False
      with that have "i = length cur" by simp
      with False show ?thesis by simp
    qed
    from False have "\<not> (c = 0x0A \<and> 0x0A \<in> set (takeWhile isspace cs))"
      and "\<not> (c = 0x0A \<and> (case dropWhile isspace cs of [] \<Rightarrow> False | d # _ \<Rightarrow> bullet_char d))"
      by (auto simp: break_at_def)
    from "2.IH"(3) [OF this inv p] show ?thesis .
  qed
qed

lemma filter_nonspace_run:
  "filter (\<lambda>c. \<not> isspace c) (takeWhile isspace cs) = []"
  "filter (\<lambda>c. \<not> isspace c) (after_last_newline (takeWhile isspace cs)) = []"
proof -
  show a: "filter (\<lambda>c. \<not> isspace c) (takeWhile isspace cs) = []"
    by (simp add: filter_empty_conv) (meson set_takeWhileD)
  have "set (after_last_newline w) \<subseteq> set w" for w
    unfolding after_last_newline_def by (metis set_rev set_takeWhileD subsetI)
  with a show "filter (\<lambda>c. \<not> isspace c) (after_last_newline (takeWhile isspace cs)) = []"
    by (auto simp: filter_empty_conv)
qed

lemma filter_nonspace_whole:
  "filter (\<lambda>c. \<not> isspace c) cs = filter (\<lambda>c. \<not> isspace c) (dropWhile isspace cs)"
  using filter_nonspace_run(1) [of cs]
  by (metis append_Nil filter_append takeWhile_dropWhile_id)

lemma paragraph_pieces_nonspace:
  "concat (map (filter (\<lambda>c. \<not> isspace c)) (paragraph_pieces cur t))
     = filter (\<lambda>c. \<not> isspace c) (cur @ t)"
proof (induction cur t rule: paragraph_pieces.induct)
  case (1 cur)
  then show ?case by simp
next
  case (2 cur c cs)
  have newline: "isspace 0x0A" by (simp add: isspace_def)
  show ?case
  proof (cases "break_at (c # cs)")
    case True
    then have c: "c = 0x0A" by (simp add: break_at_def)
    show ?thesis
    proof (cases "0x0A \<in> set (takeWhile isspace cs)")
      case blank: True
      have "concat (map (filter (\<lambda>c. \<not> isspace c)) (paragraph_pieces cur (c # cs)))
          = filter (\<lambda>c. \<not> isspace c) cur
            @ filter (\<lambda>c. \<not> isspace c)
                (after_last_newline (takeWhile isspace cs) @ dropWhile isspace cs)"
        using "2.IH"(1) c blank by simp
      also have "\<dots> = filter (\<lambda>c. \<not> isspace c) cur @ filter (\<lambda>c. \<not> isspace c) cs"
        using filter_nonspace_run(2) [of cs] filter_nonspace_whole [of cs] by simp
      finally show ?thesis using c newline by simp
    next
      case bullet: False
      with True have b: "c = 0x0A \<and> (case dropWhile isspace cs of [] \<Rightarrow> False | d # _ \<Rightarrow> bullet_char d)"
        by (simp add: break_at_def)
      have "concat (map (filter (\<lambda>c. \<not> isspace c)) (paragraph_pieces cur (c # cs)))
          = filter (\<lambda>c. \<not> isspace c) cur @ filter (\<lambda>c. \<not> isspace c) cs"
        using "2.IH"(2) bullet b by simp
      then show ?thesis using c newline by simp
    qed
  next
    case False
    then have n: "\<not> (c = 0x0A \<and> 0x0A \<in> set (takeWhile isspace cs))"
      "\<not> (c = 0x0A \<and> (case dropWhile isspace cs of [] \<Rightarrow> False | d # _ \<Rightarrow> bullet_char d))"
      by (auto simp: break_at_def)
    have "paragraph_pieces cur (c # cs) = paragraph_pieces (cur @ [c]) cs"
      using False by (simp add: paragraph_pieces_cases del: paragraph_pieces.simps)
    with "2.IH"(3) [OF n] show ?thesis by simp
  qed
qed

lemma split_paragraphs_nonspace:
  "concat (map (filter (\<lambda>c. \<not> isspace c)) (split_paragraphs text))
     = filter (\<lambda>c. \<not> isspace c) text"
proof -
  have "concat (map (filter (\<lambda>c. \<not> isspace c)) (map strip (filter (\<lambda>p. strip p \<noteq> []) ps)))
          = concat (map (filter (\<lambda>c. \<not> isspace c)) ps)" for ps
  proof (induction ps)
    case Nil
    then show ?case by simp
  next
    case (Cons p ps)
    show ?case
    proof (cases "strip p = []")
      case True
      then have "filter (\<lambda>c. \<not> isspace c) p = []"
        by (simp add: strip_empty_iff filter_empty_conv list_all_iff)
      with True Cons show ?thesis by simp
    next
      case False
      with Cons show ?thesis by (simp add: filter_nonspace_strip)
    qed
  qed
  then show ?thesis
    using paragraph_pieces_nonspace [of "[]" "text"] by (simp add: split_paragraphs_def)
qed

lemma paragraph_pieces_without_break:
  "\<not> has_break t \<Longrightarrow> paragraph_pieces cur t = [cur @ t]"
proof (induction t arbitrary: cur)
  case Nil
  then show ?case by simp
next
  case (Cons c cs)
  then have "\<not> break_at (c # cs)" and "\<not> has_break cs" by simp_all
  then show ?case
    using Cons.IH [of "cur @ [c]"]
    by (simp add: paragraph_pieces_cases del: paragraph_pieces.simps)
qed

text \<open>
  C6, the counterexample. In the text of the two lines \<^verbatim>\<open>Intro\<close> and \<^verbatim>\<open>1. first\<close> the second
  line begins with a numbered-list marker (the analyzer's own test for list lines
  accepts it), and the text stays one paragraph.
\<close>

theorem numbered_line_starts_no_paragraph:
  "is_bullet_line ascii_runtime (str ''1. first'')
   \<and> split_paragraphs (str ''Intro'' @ [0x0A] @ str ''1. first'')
       = [str ''Intro'' @ [0x0A] @ str ''1. first'']"
  by (simp add: is_bullet_line_def text_defs)

lemma no_break_within_Cons:
  "no_break_within (c # p) t \<longleftrightarrow> \<not> break_at (c # p @ t) \<and> no_break_within p t"
proof -
  have "[0 ..< length (c # p)] = 0 # map Suc [0 ..< length p]"
    by (simp add: upt_conv_Cons map_Suc_upt del: upt_Suc)
  then show ?thesis
    by (simp add: no_break_within_def list.pred_map comp_def del: upt_Suc)
qed

lemma paragraph_pieces_prefix:
  "no_break_within p t \<Longrightarrow> paragraph_pieces cur (p @ t) = paragraph_pieces (cur @ p) t"
proof (induction p arbitrary: cur)
  case Nil
  then show ?case by simp
next
  case (Cons c p)
  then have "\<not> break_at (c # p @ t)" and "no_break_within p t"
    by (simp_all add: no_break_within_Cons)
  then show ?case
    using Cons.IH [of "cur @ [c]"]
    by (simp add: paragraph_pieces_cases del: paragraph_pieces.simps)
qed

lemma paragraph_pieces_at_break:
  "break_at t \<Longrightarrow> paragraph_pieces cur t = cur # paragraph_pieces [] (after_break t)"
  by (cases t) (simp_all add: paragraph_pieces_cases after_break_def break_at_def
      del: paragraph_pieces.simps)

lemma split_paragraphs_at_break:
  assumes "no_break_within p t" and "break_at t"
  shows "split_paragraphs (p @ t)
    = (if strip p = [] then [] else [strip p]) @ split_paragraphs (after_break t)"
proof -
  have "paragraph_pieces [] (p @ t) = p # paragraph_pieces [] (after_break t)"
    using paragraph_pieces_prefix [OF assms(1), of "[]"] paragraph_pieces_at_break [OF assms(2), of p]
    by simp
  then show ?thesis by (simp add: split_paragraphs_def)
qed

lemma split_paragraphs_without_break:
  "\<not> has_break t \<Longrightarrow> split_paragraphs t = (if strip t = [] then [] else [strip t])"
  using paragraph_pieces_without_break [of t "[]"] by (simp add: split_paragraphs_def)

lemma after_break_shorter: "break_at t \<Longrightarrow> length (after_break t) < length t"
proof (cases t)
  case Nil
  then show "break_at t \<Longrightarrow> ?thesis" by (simp add: break_at_def)
next
  case (Cons c cs)
  have "length (after_last_newline (takeWhile isspace cs)) + length (dropWhile isspace cs)
      \<le> length (takeWhile isspace cs) + length (dropWhile isspace cs)"
    using length_after_last_newline [of "takeWhile isspace cs"] by simp
  also have "\<dots> = length cs"
    by (metis length_append takeWhile_dropWhile_id)
  finally show ?thesis
    using Cons by (simp add: after_break_def)
qed

text \<open>
  The two equations of the splitting, for a text without a break and for a text up to
  and after its first break, leave no choice: a function that satisfies them is
  \<open>split_paragraphs\<close>.
\<close>

lemma paragraph_laws_determine_split:
  assumes whole: "\<And>t. \<not> has_break t \<Longrightarrow> f t = (if strip t = [] then [] else [strip t])"
    and broken: "\<And>p t. no_break_within p t \<Longrightarrow> break_at t \<Longrightarrow>
      f (p @ t) = (if strip p = [] then [] else [strip p]) @ f (after_break t)"
  shows "f s = split_paragraphs s"
proof (induction "length s" arbitrary: s rule: less_induct)
  case less
  show ?case
  proof (cases "has_break s")
    case False
    then show ?thesis
      using whole [OF False] split_paragraphs_without_break [OF False] by simp
  next
    case True
    then have "\<exists>i. i < length s \<and> break_at (drop i s)"
      unfolding has_break_iff by blast
    then obtain i where i: "i < length s" "break_at (drop i s)"
      and first: "\<And>j. j < i \<Longrightarrow> \<not> (j < length s \<and> break_at (drop j s))"
      unfolding exists_least_iff [of "\<lambda>i. i < length s \<and> break_at (drop i s)"] by blast
    define p where "p = take i s"
    define t where "t = drop i s"
    have s: "s = p @ t" by (simp add: p_def t_def)
    have lp: "length p = i" using i(1) by (simp add: p_def)
    have n: "no_break_within p t"
      unfolding no_break_within_def list_all_iff
    proof
      fix j
      assume "j \<in> set [0 ..< length p]"
      then have j: "j < i" using lp by simp
      with first [OF j] i(1) show "\<not> break_at (drop j (p @ t))"
        unfolding s [symmetric] by simp
    qed
    have b: "break_at t" using i(2) by (simp add: t_def)
    have "length (after_break t) < length s"
      using after_break_shorter [OF b] by (simp add: t_def)
    then have "f (after_break t) = split_paragraphs (after_break t)"
      by (rule less)
    then show ?thesis
      unfolding s using broken [OF n b] split_paragraphs_at_break [OF n b] by simp
  qed
qed

text \<open>
  C6, amended. For every text, paragraph splitting breaks the text at blank lines and
  before every line whose first character after white space is \<^verbatim>\<open>-\<close>, the bullet U+2022
  or \<^verbatim>\<open>*\<close>, and nowhere else (a numbered-list marker starts no paragraph), and drops
  empty fragments. Each returned paragraph is a non-empty stripped string in which no
  break is left, and the paragraphs hold the characters of the text that are not white
  space, in their order. A text \<open>s\<close> without a break is returned whole, stripped, or
  dropped when it is white space. A text \<open>p @ t\<close> in which the first break starts at \<open>t\<close>
  gives \<open>p\<close> (stripped, or dropped when it is white space) followed by the paragraphs of
  what comes after that break. These two equations determine the result for every text
  (\<open>paragraph_laws_determine_split\<close>).
\<close>

theorem paragraphs_split_at_breaks:
  "(\<forall>q\<in>set (split_paragraphs s). q \<noteq> [] \<and> strip q = q \<and> \<not> has_break q)
   \<and> concat (map (filter (\<lambda>c. \<not> isspace c)) (split_paragraphs s))
       = filter (\<lambda>c. \<not> isspace c) s
   \<and> (\<not> has_break s \<longrightarrow>
        split_paragraphs s = (if strip s = [] then [] else [strip s]))
   \<and> (no_break_within p t \<and> break_at t \<longrightarrow>
        split_paragraphs (p @ t)
          = (if strip p = [] then [] else [strip p]) @ split_paragraphs (after_break t))"
proof -
  have "q \<noteq> [] \<and> strip q = q \<and> \<not> has_break q" if "q \<in> set (split_paragraphs s)" for q
  proof -
    from that obtain r where r: "r \<in> set (paragraph_pieces [] s)" "strip r \<noteq> []" "q = strip r"
      by (auto simp: split_paragraphs_def)
    have "\<not> has_break r"
      using paragraph_pieces_no_break [of "[]" s r] r(1) by simp
    with has_break_strip have "\<not> has_break q" unfolding r(3) by blast
    with r strip_idem show ?thesis by simp
  qed
  then show ?thesis
    using split_paragraphs_nonspace split_paragraphs_without_break split_paragraphs_at_break
    by blast
qed

theorem paragraphs_split_at_breaks_witness:
  "split_paragraphs (str ''Intro'' @ [0x0A, 0x0A] @ str ''- one'' @ [0x0A] @ str ''* two'')
     = [str ''Intro'', str ''- one'', str ''* two'']
   \<and> \<not> has_break (str ''- one'')
   \<and> strip (str ''- one'') = str ''- one''
   \<and> \<not> has_break (str ''body'' @ [0x0A] @ str ''1. first'')
   \<and> no_break_within (str ''Intro'') ([0x0A, 0x0A] @ str ''body'' @ [0x0A] @ str ''1. first'')
   \<and> break_at ([0x0A, 0x0A] @ str ''body'' @ [0x0A] @ str ''1. first'')
   \<and> split_paragraphs (str ''Intro'' @ [0x0A, 0x0A] @ str ''body'' @ [0x0A] @ str ''1. first'')
       = [str ''Intro'', str ''body'' @ [0x0A] @ str ''1. first'']"
proof -
  have e: "split_paragraphs (str ''Intro'' @ [0x0A, 0x0A] @ str ''- one'' @ [0x0A] @ str ''* two'')
     = [str ''Intro'', str ''- one'', str ''* two'']"
    by (simp add: text_defs)
  from paragraphs_split_at_breaks
    [of "str ''Intro'' @ [0x0A, 0x0A] @ str ''- one'' @ [0x0A] @ str ''* two''"]
  have one: "\<not> has_break (str ''- one'') \<and> strip (str ''- one'') = str ''- one''"
    unfolding e by simp
  have n: "\<not> has_break (str ''body'' @ [0x0A] @ str ''1. first'')"
    by (simp add: break_at_def isspace_def bullet_char_def str_def)
  have b: "strip (str ''body'' @ [0x0A] @ str ''1. first'') = str ''body'' @ [0x0A] @ str ''1. first''"
    by (simp add: text_defs)
  have w: "no_break_within (str ''Intro'') ([0x0A, 0x0A] @ str ''body'' @ [0x0A] @ str ''1. first'')"
    by (simp add: no_break_within_def break_at_def str_def)
  have k: "break_at ([0x0A, 0x0A] @ str ''body'' @ [0x0A] @ str ''1. first'')"
    by (simp add: break_at_def isspace_def str_def)
  have a: "after_break ([0x0A, 0x0A] @ str ''body'' @ [0x0A] @ str ''1. first'')
      = str ''body'' @ [0x0A] @ str ''1. first''"
    by (simp add: after_break_def after_last_newline_def isspace_def str_def)
  have i: "strip (str ''Intro'') = str ''Intro''"
    by (simp add: text_defs)
  from paragraphs_split_at_breaks [of "str ''body'' @ [0x0A] @ str ''1. first''"] n
  have rest: "split_paragraphs (str ''body'' @ [0x0A] @ str ''1. first'')
      = [str ''body'' @ [0x0A] @ str ''1. first'']"
    unfolding b by (simp add: str_def)
  from paragraphs_split_at_breaks
    [of _ "str ''Intro''" "[0x0A, 0x0A] @ str ''body'' @ [0x0A] @ str ''1. first''"] w k
  have "split_paragraphs (str ''Intro'' @ [0x0A, 0x0A] @ str ''body'' @ [0x0A] @ str ''1. first'')
      = [str ''Intro'', str ''body'' @ [0x0A] @ str ''1. first'']"
    unfolding a i rest by (simp add: str_def)
  with e one n w k show ?thesis by blast
qed

section \<open>Sample excerpts\<close>

lemma excerpt_loop_greedy:
  "excerpt_loop budget ss acc
     = acc @ concat (map (\<lambda>s. s @ [0x20]) (greedy_sentences budget (length acc) ss))"
proof (induction ss arbitrary: acc)
  case Nil
  then show ?case by simp
next
  case (Cons s ss)
  show ?case
  proof (cases "length acc + length s \<le> budget")
    case True
    have "excerpt_loop budget (s # ss) acc = excerpt_loop budget ss (acc @ s @ [0x20])"
      using True by simp
    also have "\<dots> = (acc @ s @ [0x20])
        @ concat (map (\<lambda>s. s @ [0x20]) (greedy_sentences budget (length acc + length s + 1) ss))"
      using Cons.IH [of "acc @ s @ [0x20]"] by (simp add: add.assoc)
    finally show ?thesis using True by simp
  next
    case False
    then show ?thesis by simp
  qed
qed

lemma greedy_sentences_subset: "set (greedy_sentences budget used ss) \<subseteq> set ss"
proof (induction ss arbitrary: used)
  case Nil
  then show ?case by simp
next
  case (Cons s ss)
  then show ?case by (cases "used + length s \<le> budget") auto
qed

lemma greedy_sentences_length:
  "greedy_sentences budget used ss \<noteq> [] \<Longrightarrow>
     used + length (py_join [0x20] (greedy_sentences budget used ss)) \<le> budget"
proof (induction ss arbitrary: used)
  case Nil
  then show ?case by simp
next
  case (Cons s ss)
  from Cons.prems have fits: "used + length s \<le> budget"
    by (simp split: if_splits)
  then have g: "greedy_sentences budget used (s # ss)
                  = s # greedy_sentences budget (used + length s + 1) ss"
    by simp
  show ?case
  proof (cases "greedy_sentences budget (used + length s + 1) ss")
    case Nil
    with fits g show ?thesis by simp
  next
    case (Cons y r)
    then have "used + length s + 1 + length (py_join [0x20] (y # r)) \<le> budget"
      using Cons.IH [of "used + length s + 1"] by simp
    with g Cons show ?thesis by simp
  qed
qed

lemma sentence_ends:
  "s \<in> set (split_sentences x) \<Longrightarrow> s \<noteq> [] \<and> \<not> isspace (hd s) \<and> \<not> isspace (last s)"
proof -
  assume "s \<in> set (split_sentences x)"
  then obtain q where "strip q \<noteq> []" "s = strip q"
    by (auto simp: split_sentences_def)
  with strip_ends [of q] show ?thesis by simp
qed

lemma py_join_ends:
  assumes "\<forall>s\<in>set (y # r). s \<noteq> []"
  shows "py_join sep (y # r) \<noteq> []"
    and "hd (py_join sep (y # r)) = hd y"
    and "last (py_join sep (y # r)) = last (last (y # r))"
  using assms
proof (induction r arbitrary: y)
  case Nil
  {
    case 1 then show ?case by simp
  next
    case 2 then show ?case by simp
  next
    case 3 then show ?case by simp
  }
next
  case (Cons z r)
  {
    case 1 then show ?case by simp
  next
    case 2 then show ?case by simp
  next
    case 3
    then have "\<forall>s\<in>set (z # r). s \<noteq> []" by simp
    from Cons.IH(1) [OF this] Cons.IH(3) [OF this] show ?case by simp
  }
qed

lemma concat_with_spaces:
  "concat (map (\<lambda>s. s @ [0x20]) (y # r)) = py_join [0x20] (y # r) @ [0x20]"
  by (induction r arbitrary: y) simp_all

lemma strip_trailing_space:
  assumes "q \<noteq> []" "\<not> isspace (hd q)" "\<not> isspace (last q)"
  shows "strip (q @ [0x20]) = q"
proof -
  have sp: "isspace 0x20" by (simp add: isspace_def)
  from assms(1,2) have "lstrip (q @ [0x20]) = q @ [0x20]"
    by (cases q) (simp_all add: lstrip_def)
  moreover from assms(1,3) have "dropWhile isspace (rev q) = rev q"
    by (cases "rev q") (simp_all add: last_rev [symmetric] hd_rev)
  ultimately show ?thesis using sp by (simp add: strip_def rstrip_def)
qed

lemma sample_excerpt_greedy: "sample_excerpt budget sample = greedy_excerpt budget sample"
proof -
  define chosen where "chosen = greedy_sentences budget 0 (take 3 (split_sentences sample))"
  have loop: "excerpt_loop budget (take 3 (split_sentences sample)) []
                = concat (map (\<lambda>s. s @ [0x20]) chosen)"
    by (simp add: excerpt_loop_greedy chosen_def)
  show ?thesis
  proof (cases chosen)
    case Nil
    have "strip [] = []" by (simp add: strip_def lstrip_def rstrip_def)
    with Nil loop show ?thesis
      by (simp add: sample_excerpt_def greedy_excerpt_def chosen_def [symmetric] Let_def)
  next
    case (Cons y r)
    have "set chosen \<subseteq> set (split_sentences sample)"
      unfolding chosen_def
      by (meson greedy_sentences_subset set_take_subset subset_trans)
    with sentence_ends have ends: "\<forall>s\<in>set (y # r). s \<noteq> [] \<and> \<not> isspace (hd s) \<and> \<not> isspace (last s)"
      unfolding Cons by blast
    then have ne: "\<forall>s\<in>set (y # r). s \<noteq> []" by blast
    have q: "py_join [0x20] (y # r) \<noteq> []"
      "\<not> isspace (hd (py_join [0x20] (y # r)))"
      "\<not> isspace (last (py_join [0x20] (y # r)))"
      using py_join_ends [OF ne, of "[0x20]"] ends by simp_all
    have "strip (concat (map (\<lambda>s. s @ [0x20]) chosen)) = py_join [0x20] (y # r)"
      unfolding Cons concat_with_spaces using q by (rule strip_trailing_space)
    moreover have "split_sentences sample \<noteq> []"
      using Cons chosen_def by auto
    ultimately show ?thesis
      using q(1) Cons
      by (simp add: sample_excerpt_def greedy_excerpt_def chosen_def [symmetric] Let_def loop)
  qed
qed

lemma greedy_excerpt_length:
  "e \<in> set (greedy_excerpt budget sample) \<Longrightarrow> length e \<le> budget"
proof -
  assume e: "e \<in> set (greedy_excerpt budget sample)"
  define chosen where "chosen = greedy_sentences budget 0 (take 3 (split_sentences sample))"
  from e have "chosen \<noteq> []" and "e = py_join [0x20] chosen"
    by (auto simp: greedy_excerpt_def chosen_def [symmetric] split: list.splits)
  with greedy_sentences_length [of budget 0 "take 3 (split_sentences sample)"]
  show ?thesis by (simp add: chosen_def)
qed

text \<open>
  C8. For every sample list, excerpt extraction builds per sample the greedy
  concatenation of the first sentences of the sample (at most 3) whose cumulative length
  stays within the budget of 200 characters, stopping at the first sentence that would
  exceed it; the result holds at most 5 excerpts, at most one per sample, in sample
  order, and every excerpt has at most 200 characters.
\<close>

theorem excerpts_greedy_and_bounded:
  "sample_excerpts (analyze U ss) = take 5 (concat (map (greedy_excerpt 200) ss))
   \<and> (\<forall>s\<in>set ss. length (greedy_excerpt 200 s) \<le> 1)
   \<and> length (sample_excerpts (analyze U ss)) \<le> 5
   \<and> (\<forall>e\<in>set (sample_excerpts (analyze U ss)). length e \<le> 200)"
proof -
  have eq: "sample_excerpts (analyze U ss) = take 5 (concat (map (greedy_excerpt 200) ss))"
    by (simp add: profile_fields extract_sample_excerpts_def StyleAnalyzer_def
        sample_excerpt_greedy [abs_def])
  have one: "length (greedy_excerpt 200 s) \<le> 1" for s
    by (simp add: greedy_excerpt_def split: list.splits)
  have "length e \<le> 200" if "e \<in> set (sample_excerpts (analyze U ss))" for e
  proof -
    from that have "e \<in> set (concat (map (greedy_excerpt 200) ss))"
      unfolding eq by (rule in_set_takeD)
    then show ?thesis using greedy_excerpt_length by auto
  qed
  with eq one show ?thesis by simp
qed

theorem excerpts_greedy_and_bounded_witness:
  "sample_excerpts (analyze ascii_runtime [str ''Hi all. We meet today. Stay calm. Bye now.'', str '' ''])
     = [str ''Hi all. We meet today. Stay calm.'']
   \<and> length (str ''Hi all. We meet today. Stay calm.'') \<le> 200
   \<and> length (greedy_excerpt 200 (str '' '')) \<le> 1"
proof -
  have s1: "split_sentences (str ''Hi all. We meet today. Stay calm. Bye now.'')
          = [str ''Hi all.'', str ''We meet today.'', str ''Stay calm.'', str ''Bye now.'']"
    by (simp add: text_defs)
  have s2: "split_sentences (str '' '') = []"
    by (simp add: text_defs)
  have g1: "greedy_excerpt 200 (str ''Hi all. We meet today. Stay calm. Bye now.'')
          = [str ''Hi all. We meet today. Stay calm.'']"
    unfolding greedy_excerpt_def s1 by (simp add: str_def)
  have g2: "greedy_excerpt 200 (str '' '') = []"
    unfolding greedy_excerpt_def s2 by simp
  from excerpts_greedy_and_bounded
    [of ascii_runtime "[str ''Hi all. We meet today. Stay calm. Bye now.'', str '' '']"]
  show ?thesis
    by (simp add: g1 g2)
qed

section \<open>The empty corpus\<close>

text \<open>
  C2, the failing input. The sample that is the one character U+3000 (ideographic space)
  is all white space: the corpus has no sentence, no paragraph and no word. The class of
  \<^verbatim>\<open>EMOJI_PATTERN\<close> holds the range U+24C2..U+1F251, and with it U+3000: the sample counts as
  one emoji, and the frequency per 100 words (the word count replaced by 1) is 100.
\<close>

theorem ideographic_space_counts_as_emoji:
  "list_all isspace [0x3000]
   \<and> all_sentences (StyleAnalyzer ascii_runtime [[0x3000]]) = []
   \<and> all_paragraphs (StyleAnalyzer ascii_runtime [[0x3000]]) = []
   \<and> all_words (StyleAnalyzer ascii_runtime [[0x3000]]) = []
   \<and> emoji_findall (combined_text (StyleAnalyzer ascii_runtime [[0x3000]])) = [[0x3000]]
   \<and> emoji_frequency (metrics (analyze ascii_runtime [[0x3000]])) = 100"
proof -
  have a: "StyleAnalyzer ascii_runtime [[0x3000]] =
      \<lparr>samples = [[0x3000]], combined_text = [0x3000],
       all_sentences = [], all_paragraphs = [], all_words = []\<rparr>"
    by (simp add: text_defs)
  have e: "emoji_findall [0x3000] = [[0x3000]]"
    by (simp add: emoji_char_def)
  have "emoji_frequency (metrics (analyze ascii_runtime [[0x3000]])) = 100"
    unfolding metrics_analyze metrics_punctuation_emoji a
    by (simp add: analyze_punctuation_emoji_def emoji_char_def ascii_runtime_arithmetic number_defs)
  with a e show ?thesis by (simp add: isspace_def emoji_char_def)
qed

lemma nonspace_head_filter:
  "p \<noteq> [] \<Longrightarrow> \<not> isspace (hd p) \<Longrightarrow> filter (\<lambda>c. \<not> isspace c) p \<noteq> []"
  by (cases p) simp_all

lemma all_space_no_paragraphs: "list_all isspace s \<Longrightarrow> split_paragraphs s = []"
proof (rule ccontr)
  assume sp: "list_all isspace s" and "split_paragraphs s \<noteq> []"
  then obtain p where p: "p \<in> set (split_paragraphs s)"
    by (cases "split_paragraphs s") auto
  then obtain q where q: "strip q \<noteq> []" "p = strip q"
    by (auto simp: split_paragraphs_def)
  have "filter (\<lambda>c. \<not> isspace c) p \<noteq> []"
    unfolding q(2) using q(1) strip_ends(1) [OF q(1)] by (rule nonspace_head_filter)
  with p have "concat (map (filter (\<lambda>c. \<not> isspace c)) (split_paragraphs s)) \<noteq> []"
    by (auto simp del: filter_empty_conv)
  moreover from sp have "filter (\<lambda>c. \<not> isspace c) s = []"
    by (simp add: filter_empty_conv list_all_iff)
  ultimately show False
    using split_paragraphs_nonspace [of s] by simp
qed

lemma find_words_none: "\<forall>c\<in>set t. \<not> isword U c \<Longrightarrow> find_words U t = []"
  by (induction t) simp_all

lemma py_join_chars: "set (py_join sep xs) \<subseteq> set sep \<union> \<Union> (set ` set xs)"
  by (induction sep xs rule: py_join.induct) auto

lemma emoji_findall_none: "\<forall>c\<in>set t. \<not> emoji_char c \<Longrightarrow> emoji_findall t = []"
  by (induction t) simp_all

lemma ellipsis_findall_none:
  "\<forall>c\<in>set t. c \<noteq> 0x2E \<and> c \<noteq> 0x2026 \<Longrightarrow> ellipsis_findall t = []"
  by (induction t) simp_all

lemma dash_findall_none:
  "\<forall>c\<in>set t. c \<noteq> 0x2014 \<and> c \<noteq> 0x2013 \<and> c \<noteq> 0x2D \<Longrightarrow> dash_findall t = []"
proof (induction t)
  case Nil
  then show ?case by simp
next
  case (Cons a cs)
  then have "length cs \<ge> 2 \<Longrightarrow> cs ! 0 \<noteq> 0x2D"
    by (cases cs) auto
  with Cons show ?case by auto
qed

lemma paren_findall_none: "\<forall>c\<in>set t. c \<noteq> 0x28 \<Longrightarrow> paren_findall t = []"
  by (induction t) simp_all

lemma plain_space_triggers_nothing:
  assumes "isspace c" "c \<noteq> 0x3000"
  shows "\<not> emoji_char c" "c \<noteq> 0x2E \<and> c \<noteq> 0x2026"
    "c \<noteq> 0x2014 \<and> c \<noteq> 0x2013 \<and> c \<noteq> 0x2D" "c \<noteq> 0x28"
  using assms by (auto simp: isspace_def emoji_char_def)

lemma exact_round_zero: "exact_round 0 n = 0"
  by (simp add: exact_round_def round_half_even_def)

text \<open>
  What holds of the empty corpus: when every sample is white space without U+3000 (and
  no white space character is a word character, as in Python, and the arithmetic gives
  0 for \<^verbatim>\<open>0 / 1\<close>, for \<^verbatim>\<open>0.0 * 100\<close> and for \<^verbatim>\<open>round(0.0, 3)\<close>, as floats do), every numeric
  metric is 0, \<open>uses_bullet_points\<close> is false and the variation is low.
\<close>

theorem whitespace_corpus_defaults:
  assumes "\<forall>s\<in>set ss. \<forall>c\<in>set s. isspace c \<and> c \<noteq> 0x3000"
    and "\<forall>c. isspace c \<longrightarrow> \<not> isword U c"
    and "fl_div U 0 1 = 0" and "fl_mul U 0 100 = 0" and "fl_round U 0 3 = 0"
  shows "metrics (analyze U ss) =
    \<lparr> avg_sentence_length = 0, sentence_length_std = 0,
      short_sentence_ratio = 0, long_sentence_ratio = 0,
      question_ratio = 0, exclamation_ratio = 0,
      avg_paragraph_length = 0, uses_bullet_points = False, bullet_frequency = 0,
      vocabulary_richness = 0, avg_word_length = 0, contraction_ratio = 0,
      emoji_frequency = 0, ellipsis_frequency = 0, dash_frequency = 0,
      parenthetical_frequency = 0,
      opens_with_short_sentence = 0, sentence_length_variation = str ''low'' \<rparr>"
proof -
  define a where "a = StyleAnalyzer U ss"
  have sp: "list_all isspace s" if "s \<in> set ss" for s
    using assms(1) that by (simp add: list_all_iff)
  have s: "all_sentences a = []"
    using sp by (simp add: a_def StyleAnalyzer_def all_space_no_sentences)
  have p: "all_paragraphs a = []"
    using sp by (simp add: a_def StyleAnalyzer_def all_space_no_paragraphs)
  have "get_words U s = []" if "s \<in> set ss" for s
    using assms that by (simp add: get_words_def find_words_none)
  then have w: "all_words a = []"
    by (simp add: a_def StyleAnalyzer_def)
  have c: "isspace c \<and> c \<noteq> 0x3000" if "c \<in> set (combined_text a)" for c
  proof -
    from that py_join_chars [of "[0x0A, 0x0A]" ss]
    have "c = 0x0A \<or> (\<exists>s\<in>set ss. c \<in> set s)"
      by (auto simp: a_def StyleAnalyzer_def)
    with assms(1) show ?thesis by (auto simp: isspace_def)
  qed
  have f: "emoji_findall (combined_text a) = []" "ellipsis_findall (combined_text a) = []"
    "dash_findall (combined_text a) = []" "paren_findall (combined_text a) = []"
    using c plain_space_triggers_nothing
    by (simp_all add: emoji_findall_none ellipsis_findall_none dash_findall_none paren_findall_none)
  have "analyze_metrics U a =
    \<lparr> avg_sentence_length = 0, sentence_length_std = 0,
      short_sentence_ratio = 0, long_sentence_ratio = 0,
      question_ratio = 0, exclamation_ratio = 0,
      avg_paragraph_length = 0, uses_bullet_points = False, bullet_frequency = 0,
      vocabulary_richness = 0, avg_word_length = 0, contraction_ratio = 0,
      emoji_frequency = 0, ellipsis_frequency = 0, dash_frequency = 0,
      parenthetical_frequency = 0,
      opens_with_short_sentence = 0, sentence_length_variation = str ''low'' \<rparr>"
    by (simp add: analyze_metrics_def analyze_sentence_structure_def analyze_questions_hooks_def
        analyze_formatting_def analyze_vocabulary_def analyze_punctuation_emoji_def
        analyze_rhythm_def s p w f assms(3-5))
  then show ?thesis by (simp add: metrics_analyze a_def)
qed

theorem whitespace_corpus_defaults_witness:
  "metrics (analyze ascii_runtime [[], [0x20, 0x0A, 0x09]]) =
    \<lparr> avg_sentence_length = 0, sentence_length_std = 0,
      short_sentence_ratio = 0, long_sentence_ratio = 0,
      question_ratio = 0, exclamation_ratio = 0,
      avg_paragraph_length = 0, uses_bullet_points = False, bullet_frequency = 0,
      vocabulary_richness = 0, avg_word_length = 0, contraction_ratio = 0,
      emoji_frequency = 0, ellipsis_frequency = 0, dash_frequency = 0,
      parenthetical_frequency = 0,
      opens_with_short_sentence = 0, sentence_length_variation = str ''low'' \<rparr>"
proof -
  have 1: "\<forall>s\<in>set [[], [0x20, 0x0A, 0x09]]. \<forall>c\<in>set s. isspace c \<and> c \<noteq> 0x3000"
    by (simp add: isspace_def)
  have 2: "\<forall>c. isspace c \<longrightarrow> \<not> isword ascii_runtime c"
    by (auto simp: isspace_def isword_def ascii_runtime_def)
  have 3: "fl_div ascii_runtime 0 1 = 0" "fl_mul ascii_runtime 0 100 = 0"
    "fl_round ascii_runtime 0 3 = 0"
    by (simp_all add: ascii_runtime_arithmetic exact_round_zero)
  show ?thesis by (rule whitespace_corpus_defaults [OF 1 2 3])
qed

section \<open>Ratios\<close>

lemma round_half_even_bounds:
  assumes "0 \<le> y" "y \<le> of_int N"
  shows "0 \<le> round_half_even y \<and> round_half_even y \<le> N"
proof -
  have f0: "0 \<le> \<lfloor>y\<rfloor>" using assms(1) by simp
  have fN: "\<lfloor>y\<rfloor> \<le> N" using assms(2) by (simp add: floor_le_iff)
  have up: "\<lfloor>y\<rfloor> + 1 \<le> N" if "\<not> y - of_int \<lfloor>y\<rfloor> < 1 / 2"
  proof -
    from that have "of_int \<lfloor>y\<rfloor> < y" by simp
    with assms(2) have "of_int \<lfloor>y\<rfloor> < (of_int N :: real)" by simp
    then show ?thesis by simp
  qed
  show ?thesis
    unfolding round_half_even_def using f0 fN up by auto
qed

lemma exact_round_unit: "unit_interval x \<Longrightarrow> unit_interval (exact_round x n)"
proof -
  assume "unit_interval x"
  then have x: "0 \<le> x" "x \<le> 1" by (simp_all add: unit_interval_def)
  define r where "r = round_half_even (x * 10 ^ n)"
  have "0 \<le> x * 10 ^ n" using x(1) by simp
  moreover have "x * 10 ^ n \<le> of_int (10 ^ n)"
    using x(2) by (simp add: mult_left_le_one_le)
  ultimately have "0 \<le> r \<and> r \<le> 10 ^ n"
    unfolding r_def by (rule round_half_even_bounds)
  then have "(0 :: real) \<le> of_int r" and "(of_int r :: real) \<le> of_int (10 ^ n)"
    by (simp_all only: of_int_0_le_iff of_int_le_iff)
  then have "(0 :: real) \<le> of_int r / 10 ^ n" and "(of_int r :: real) / 10 ^ n \<le> 1"
    by (simp_all add: divide_le_eq_1_pos)
  then show ?thesis
    by (simp add: exact_round_def unit_interval_def r_def)
qed

lemma ratio_unit: "k \<le> n \<Longrightarrow> unit_interval (real k / real n)"
  by (cases "n = 0") (simp_all add: unit_interval_def divide_le_eq_1_pos)

lemma ascii_runtime_arithmetic_fits: "arithmetic_fits ascii_runtime"
  by (simp add: arithmetic_fits_def ascii_runtime_arithmetic ratio_unit exact_round_unit)

lemma rounded_ratio_unit:
  assumes "arithmetic_fits U" "0 < n" "k \<le> n"
  shows "unit_interval (fl_round U (fl_div U (real k) (real n)) d)"
  using assms unfolding arithmetic_fits_def by blast

lemma zero_unit: "unit_interval 0"
  by (simp add: unit_interval_def)

lemma rounded_part_unit:
  assumes "arithmetic_fits U"
  shows "ls \<noteq> [] \<Longrightarrow>
      unit_interval (fl_round U (fl_div U (real (length (filter P ls))) (real (length ls))) d)"
    and "unit_interval
      (fl_round U (fl_div U (real (length (filter P ls))) (real (max (length ls) 1))) d)"
proof -
  show "unit_interval (fl_round U (fl_div U (real (length (filter P ls))) (real (length ls))) d)"
    if "ls \<noteq> []"
    using assms by (rule rounded_ratio_unit) (use that in simp_all)
  show "unit_interval
      (fl_round U (fl_div U (real (length (filter P ls))) (real (max (length ls) 1))) d)"
    using assms
  proof (rule rounded_ratio_unit)
    show "0 < max (length ls) 1" by simp
    show "length (filter P ls) \<le> max (length ls) 1"
      by (rule order_trans [OF length_filter_le]) simp
  qed
qed

lemma sentence_ratios_unit:
  assumes "arithmetic_fits U"
  shows "unit_interval (fst (snd (snd (analyze_sentence_structure U a))))"
    and "unit_interval (snd (snd (snd (analyze_sentence_structure U a))))"
  by (simp_all add: analyze_sentence_structure_def Let_def zero_unit rounded_part_unit [OF assms])

lemma question_ratios_unit:
  assumes "arithmetic_fits U"
  shows "unit_interval (fst (analyze_questions_hooks U a))"
    and "unit_interval (snd (analyze_questions_hooks U a))"
  by (simp_all add: analyze_questions_hooks_def Let_def zero_unit rounded_part_unit [OF assms])

lemma bullet_frequency_unit:
  assumes "arithmetic_fits U"
  shows "unit_interval (snd (snd (analyze_formatting U a)))"
  by (simp add: analyze_formatting_def Let_def zero_unit
      rounded_part_unit(2) [OF assms, unfolded One_nat_def])

lemma vocabulary_richness_unit:
  assumes "arithmetic_fits U"
  shows "unit_interval (fst (analyze_vocabulary U a))"
proof -
  have "unit_interval (fl_round U (fl_div U (real (card (set ws))) (real (length ws))) d)"
    if "ws \<noteq> []" for d and ws :: "pystr list"
    using assms by (rule rounded_ratio_unit) (use that in \<open>simp_all add: card_length\<close>)
  then show ?thesis
    by (simp add: analyze_vocabulary_def Let_def zero_unit)
qed

lemma opens_short_unit:
  assumes "arithmetic_fits U"
  shows "unit_interval (fst (analyze_rhythm U a))"
  by (simp add: analyze_rhythm_def Let_def zero_unit
      rounded_part_unit(2) [OF assms, unfolded One_nat_def])

section \<open>Contractions and words\<close>

text \<open>The words of the samples are the words of the samples joined by blank lines.\<close>

lemma word_starts_find_words:
  "word_starts U False t = length (find_words U t)
   \<and> word_starts U True t = length (find_words U (dropWhile (isword U) t))"
  by (induction t) simp_all

lemma word_starts_append:
  "word_starts U b (xs @ ys)
     = word_starts U b xs + word_starts U (if xs = [] then b else isword U (last xs)) ys"
  by (induction xs arbitrary: b) simp_all

lemma word_starts_join:
  assumes "\<not> isword U 0x0A"
  shows "word_starts U False (py_join [0x0A, 0x0A] ss) = length (concat (map (find_words U) ss))"
proof (induction ss)
  case Nil
  then show ?case by simp
next
  case (Cons x r)
  show ?case
  proof (cases r)
    case Nil
    then show ?thesis by (simp add: word_starts_find_words)
  next
    case (Cons y r')
    have j: "py_join [0x0A, 0x0A] (x # r) = (x @ [0x0A, 0x0A]) @ py_join [0x0A, 0x0A] r"
      using Cons by simp
    have "word_starts U False ((x @ [0x0A, 0x0A]) @ py_join [0x0A, 0x0A] r)
        = word_starts U False (x @ [0x0A, 0x0A]) + word_starts U False (py_join [0x0A, 0x0A] r)"
      using assms by (simp only: word_starts_append) simp
    moreover have "word_starts U False (x @ [0x0A, 0x0A]) = word_starts U False x"
      using assms by (simp add: word_starts_append)
    moreover have "word_starts U False x = length (find_words U x)"
      by (simp add: word_starts_find_words)
    ultimately show ?thesis
      unfolding j using Cons.IH by simp
  qed
qed

text \<open>A text has as many word ends as words.\<close>

lemma word_ends_run:
  "isword U c \<Longrightarrow>
     word_ends U (\<lambda>c. True) (c # cs) = Suc (word_ends U (\<lambda>c. True) (dropWhile (isword U) cs))"
proof (induction cs arbitrary: c)
  case Nil
  then show ?case by simp
next
  case (Cons d ds)
  show ?case
  proof (cases "isword U d")
    case True
    from Cons.IH [OF True] Cons.prems True show ?thesis by simp
  next
    case False
    with Cons.prems show ?thesis by simp
  qed
qed

lemma word_ends_find_words: "word_ends U (\<lambda>c. True) t = length (find_words U t)"
proof (induction U t rule: find_words.induct)
  case (1 U)
  then show ?case by simp
next
  case (2 U c cs)
  show ?case
  proof (cases "isword U c")
    case True
    with "2.IH"(1) word_ends_run [OF True, of cs] show ?thesis by simp
  next
    case False
    with "2.IH"(2) show ?thesis by simp
  qed
qed

text \<open>
  Every contraction that is found ends where a word ends, and with a character other
  than \<^verbatim>\<open>i\<close>: no alternative of the pattern ends with \<^verbatim>\<open>i\<close>.
\<close>

lemma contractions_shape:
  "list_all (\<lambda>alt. alt \<noteq> [] \<and> 0x61 \<le> last alt \<and> last alt \<le> 0x7A \<and> last alt \<noteq> 0x69)
     CONTRACTIONS"
  by (simp add: CONTRACTIONS_def str_def)

lemma ci_match_letter: "0x61 \<le> p \<Longrightarrow> p \<le> 0x7A \<Longrightarrow> ci_match p c \<Longrightarrow> matches_letter c"
  by (auto simp: ci_match_def matches_letter_def)

lemma ci_match_not_i: "p \<noteq> 0x69 \<Longrightarrow> ci_match p c \<Longrightarrow> c \<noteq> 0x69"
  by (auto simp: ci_match_def)

lemma ci_prefix_ends:
  "alt \<noteq> [] \<Longrightarrow> ci_prefix alt t \<Longrightarrow>
     t \<noteq> [] \<and> ci_match (hd alt) (hd t) \<and> length alt \<le> length t
     \<and> ci_match (last alt) (last (take (length alt) t))"
proof (induction alt t rule: ci_prefix.induct)
  case (1 t)
  then show ?case by simp
next
  case (2 p ps)
  then show ?case by simp
next
  case (3 p ps c cs)
  show ?case
  proof (cases ps)
    case Nil
    with 3 show ?thesis by simp
  next
    case (Cons q qs)
    with 3 have "cs \<noteq> [] \<and> ci_match (hd ps) (hd cs) \<and> length ps \<le> length cs
      \<and> ci_match (last ps) (last (take (length ps) cs))"
      by simp
    with 3 Cons show ?thesis by (cases cs) simp_all
  qed
qed

lemma word_ends_le_Cons: "word_ends U keep cs \<le> word_ends U keep (c # cs)"
  by simp

lemma word_ends_after_word:
  "xs \<noteq> [] \<Longrightarrow> isword U (last xs) \<Longrightarrow> keep (last xs) \<Longrightarrow>
   (case ys of [] \<Rightarrow> True | d # _ \<Rightarrow> \<not> isword U d) \<Longrightarrow>
     Suc (word_ends U keep ys) \<le> word_ends U keep (xs @ ys)"
proof (induction xs)
  case Nil
  then show ?case by simp
next
  case (Cons x r)
  show ?case
  proof (cases r)
    case Nil
    with Cons.prems show ?thesis by simp
  next
    case (Cons x' r')
    with Cons.prems Cons.IH have "Suc (word_ends U keep ys) \<le> word_ends U keep (r @ ys)"
      by simp
    also have "\<dots> \<le> word_ends U keep (x # r @ ys)" by (rule word_ends_le_Cons)
    finally show ?thesis by simp
  qed
qed

lemma contraction_findall_le_word_ends:
  assumes letters: "\<forall>c. matches_letter c \<longrightarrow> isword U c"
  shows "length (contraction_findall U before t) \<le> word_ends U (\<lambda>c. c \<noteq> 0x69) t"
  using letters
proof (induction U before t rule: contraction_findall.induct)
  case (1 U before)
  then show ?case by simp
next
  case (2 U before c cs)
  note letters = "2.prems"
  have skip: "length (contraction_findall U (isword U c) cs) \<le> word_ends U (\<lambda>c. c \<noteq> 0x69) (c # cs)"
    if "length (contraction_findall U (isword U c) cs) \<le> word_ends U (\<lambda>c. c \<noteq> 0x69) cs"
    using that by simp
  show ?case
  proof (cases "word_boundary U before (c # cs)")
    case False
    with "2.IH"(3) [OF False letters] skip show ?thesis by simp
  next
    case True
    show ?thesis
    proof (cases "find (\<lambda>alt. alt_matches U alt (c # cs)) CONTRACTIONS")
      case None
      with True "2.IH"(1) [OF True None letters] skip show ?thesis by simp
    next
      case (Some alt)
      then have alt: "alt \<in> set CONTRACTIONS" and m: "alt_matches U alt (c # cs)"
        by (auto simp: find_Some_iff)
      from alt contractions_shape have shape: "alt \<noteq> []"
        "0x61 \<le> last alt" "last alt \<le> 0x7A" "last alt \<noteq> 0x69"
        by (auto simp: list_all_iff)
      define found where "found = take (length alt) (c # cs)"
      define rest where "rest = drop (length alt) (c # cs)"
      from m have pre: "ci_prefix alt (c # cs)"
        and after: "word_boundary U (isword U (last found)) rest"
        by (simp_all add: alt_matches_def found_def rest_def)
      from ci_prefix_ends [OF shape(1) pre]
      have final: "ci_match (last alt) (last found)"
        by (simp add: found_def)
      have ne: "found \<noteq> []" using shape(1) by (simp add: found_def)
      have wl: "isword U (last found)"
        using ci_match_letter [OF shape(2,3) final] letters by blast
      have ni: "last found \<noteq> 0x69"
        using shape(4) final by (rule ci_match_not_i)
      have nb: "case rest of [] \<Rightarrow> True | d # _ \<Rightarrow> \<not> isword U d"
        using after wl by (simp add: word_boundary_def split: list.splits)
      have r: "drop (length alt - 1) cs = rest"
        using shape(1) by (cases alt) (simp_all add: rest_def)
      have whole: "c # cs = found @ rest"
        by (simp add: found_def rest_def)
      have "length (contraction_findall U (isword U (last found)) rest)
              \<le> word_ends U (\<lambda>c. c \<noteq> 0x69) rest"
        using "2.IH"(2) [OF True Some letters] unfolding found_def r .
      then have "Suc (length (contraction_findall U (isword U (last found)) rest))
              \<le> Suc (word_ends U (\<lambda>c. c \<noteq> 0x69) rest)"
        by simp
      also have "\<dots> \<le> word_ends U (\<lambda>c. c \<noteq> 0x69) (found @ rest)"
        using ne wl ni nb by (rule word_ends_after_word)
      finally have "Suc (length (contraction_findall U (isword U (last found)) rest))
              \<le> word_ends U (\<lambda>c. c \<noteq> 0x69) (c # cs)"
        unfolding whole .
      moreover have "contraction_findall U before (c # cs)
          = found # contraction_findall U (isword U (last found)) rest"
        using True Some r by (simp add: found_def)
      ultimately show ?thesis by simp
    qed
  qed
qed

text \<open>
  Lower-casing makes no new word end in a character other than \<^verbatim>\<open>i\<close>: where the lower
  case of a word character is followed by something, that character is \<^verbatim>\<open>i\<close>.
\<close>

lemma word_ends_skip:
  "list_all (\<lambda>m. \<not> isword U m) xs \<Longrightarrow> word_ends U keep (xs @ ys) = word_ends U keep ys"
  by (induction xs) simp_all

lemma word_ends_lowered:
  "list_all2 (lower_image U) t imgs \<Longrightarrow>
     word_ends U (\<lambda>c. c \<noteq> 0x69) (concat imgs) \<le> word_ends U (\<lambda>c. True) t"
proof (induction t imgs rule: list_all2_induct)
  case Nil
  then show ?case by simp
next
  case (Cons c t img imgs)
  show ?case
  proof (cases "isword U c")
    case False
    with Cons.hyps(1) have "list_all (\<lambda>m. \<not> isword U m) img"
      by (simp add: lower_image_def)
    then have "word_ends U (\<lambda>c. c \<noteq> 0x69) (concat (img # imgs))
        = word_ends U (\<lambda>c. c \<noteq> 0x69) (concat imgs)"
      by (simp add: word_ends_skip)
    with Cons.IH False show ?thesis by simp
  next
    case True
    with Cons.hyps(1) obtain d marks where img: "img = d # marks" and d: "isword U d"
      and marks: "list_all (\<lambda>m. \<not> isword U m) marks" and dot: "marks \<noteq> [] \<longrightarrow> d = 0x69"
      by (auto simp: lower_image_def split: list.splits)
    have rest: "word_ends U (\<lambda>c. c \<noteq> 0x69) (marks @ concat imgs)
        = word_ends U (\<lambda>c. c \<noteq> 0x69) (concat imgs)"
      using marks by (rule word_ends_skip)
    have flag: "(case t of [] \<Rightarrow> True | e # _ \<Rightarrow> \<not> isword U e)"
      if "d \<noteq> 0x69" and "case marks @ concat imgs of [] \<Rightarrow> True | e # _ \<Rightarrow> \<not> isword U e"
    proof (cases t)
      case Nil
      then show ?thesis by simp
    next
      case (Cons c' t')
      show ?thesis
      proof (rule ccontr)
        assume "\<not> (case t of [] \<Rightarrow> True | e # _ \<Rightarrow> \<not> isword U e)"
        with Cons have w: "isword U c'" by simp
        from Cons \<open>list_all2 (lower_image U) t imgs\<close>
        obtain img' imgs' where i: "imgs = img' # imgs'" "lower_image U c' img'"
          by (auto simp: list_all2_Cons1)
        with w obtain d' marks' where "img' = d' # marks'" "isword U d'"
          by (auto simp: lower_image_def split: list.splits)
        moreover from that(1) dot have "marks = []" by blast
        ultimately show False using that(2) i by simp
      qed
    qed
    have "word_ends U (\<lambda>c. c \<noteq> 0x69) (concat (img # imgs))
        = (if d \<noteq> 0x69 \<and> (case marks @ concat imgs of [] \<Rightarrow> True | e # _ \<Rightarrow> \<not> isword U e)
           then 1 else 0)
          + word_ends U (\<lambda>c. c \<noteq> 0x69) (concat imgs)"
      using d rest by (simp add: img)
    also have "\<dots> \<le> (if (case t of [] \<Rightarrow> True | e # _ \<Rightarrow> \<not> isword U e) then 1 else 0)
          + word_ends U (\<lambda>c. True) t"
      using flag Cons.IH by (simp split: if_splits)
    also have "\<dots> = word_ends U (\<lambda>c. True) (c # t)"
      using True by simp
    finally show ?thesis .
  qed
qed

lemma contraction_ratio_unit:
  assumes "arithmetic_fits U" and "database_fits U"
  shows "unit_interval (snd (snd (analyze_vocabulary U (StyleAnalyzer U ss))))"
proof -
  define T where "T = py_join [0x0A, 0x0A] ss"
  from assms(2) have letters: "\<forall>c. matches_letter c \<longrightarrow> isword U c"
    and nl: "\<not> isword U 0x0A"
    by (simp_all add: database_fits_def)
  from assms(2) obtain imgs where imgs: "list_all2 (lower_image U) T imgs"
    "uc_lower U T = concat imgs"
    unfolding database_fits_def by blast
  have "length (contraction_findall U False (uc_lower U T))
      \<le> word_ends U (\<lambda>c. c \<noteq> 0x69) (uc_lower U T)"
    using letters by (rule contraction_findall_le_word_ends)
  also have "\<dots> \<le> word_ends U (\<lambda>c. True) T"
    unfolding imgs(2) using imgs(1) by (rule word_ends_lowered)
  also have "\<dots> = word_starts U False T"
    by (simp add: word_ends_find_words word_starts_find_words)
  also have "\<dots> = length (concat (map (find_words U) ss))"
    unfolding T_def using nl by (rule word_starts_join)
  also have "\<dots> = length (all_words (StyleAnalyzer U ss))"
    by (simp add: StyleAnalyzer_def get_words_def length_concat comp_def)
  finally have le: "length (contraction_findall U False (uc_lower U T))
      \<le> max (length (all_words (StyleAnalyzer U ss))) 1"
    by simp
  have "unit_interval (fl_round U (fl_div U (real (length (contraction_findall U False (uc_lower U T))))
      (real (max (length (all_words (StyleAnalyzer U ss))) 1))) 3)"
    using assms(1) _ le by (rule rounded_ratio_unit) simp
  moreover have "combined_text (StyleAnalyzer U ss) = T"
    by (simp add: StyleAnalyzer_def T_def)
  ultimately show ?thesis
    by (simp add: analyze_vocabulary_def Let_def zero_unit)
qed

lemma ascii_runtime_database_fits: "database_fits ascii_runtime"
proof -
  have letters: "\<forall>c. matches_letter c \<longrightarrow> isword ascii_runtime c"
    by (auto simp: matches_letter_def isword_def ascii_runtime_def)
  have nl: "\<not> isword ascii_runtime 0x0A"
    by (simp add: isword_def ascii_runtime_def)
  have image: "lower_image ascii_runtime c (ascii_lower_char c)" for c
    by (auto simp: lower_image_def ascii_lower_char_def isword_def ascii_runtime_def)
  have "list_all2 (lower_image ascii_runtime) t (map ascii_lower_char t)
      \<and> uc_lower ascii_runtime t = concat (map ascii_lower_char t)" for t
    using image by (simp add: list_all2_map2 list_all2_same ascii_runtime_def)
  then have "\<forall>t. \<exists>imgs. list_all2 (lower_image ascii_runtime) t imgs
      \<and> uc_lower ascii_runtime t = concat imgs"
    by blast
  with letters nl show ?thesis
    unfolding database_fits_def by blast
qed

text \<open>
  C3. For every sample list, each metric that is the ratio of a count to a total lies
  in the closed interval from 0 to 1: the short and long sentence ratios, the question
  and exclamation ratios, the bullet frequency, the vocabulary richness, the ratio of
  paragraphs that open with a short sentence, and the contraction ratio. What is asked
  is asked of the runtime, not of the samples: that quotients and rounding stay in the
  interval, and for the contraction ratio that the Unicode database is shaped like
  Python's.
\<close>

theorem ratio_fields_in_unit_interval:
  "(arithmetic_fits U \<longrightarrow>
      unit_interval (short_sentence_ratio (metrics (analyze U ss)))
      \<and> unit_interval (long_sentence_ratio (metrics (analyze U ss)))
      \<and> unit_interval (question_ratio (metrics (analyze U ss)))
      \<and> unit_interval (exclamation_ratio (metrics (analyze U ss)))
      \<and> unit_interval (bullet_frequency (metrics (analyze U ss)))
      \<and> unit_interval (vocabulary_richness (metrics (analyze U ss)))
      \<and> unit_interval (opens_with_short_sentence (metrics (analyze U ss))))
   \<and> (arithmetic_fits U \<and> database_fits U \<longrightarrow>
      unit_interval (contraction_ratio (metrics (analyze U ss))))"
  unfolding metrics_analyze metrics_sentence_structure metrics_questions_hooks
    metrics_formatting metrics_vocabulary metrics_rhythm
  using sentence_ratios_unit question_ratios_unit bullet_frequency_unit
    vocabulary_richness_unit opens_short_unit contraction_ratio_unit
  by blast

theorem ratio_fields_in_unit_interval_witness:
  "arithmetic_fits ascii_runtime \<and> database_fits ascii_runtime
   \<and> unit_interval (contraction_ratio (metrics (analyze ascii_runtime [str ''I love this. Don't you? It's amazing!!''])))
   \<and> unit_interval (question_ratio (metrics (analyze ascii_runtime [str ''I love this. Don't you? It's amazing!!''])))"
  using ratio_fields_in_unit_interval [of ascii_runtime "[str ''I love this. Don't you? It's amazing!!'']"]
    ascii_runtime_arithmetic_fits ascii_runtime_database_fits
  by blast

end
